theory Spec2Isabelle
  imports Complex_Main
begin

section \<open>Polynomial continued fractions: the computation and transformation engine\<close>

text \<open>
  A shallow embedding of \<^verbatim>\<open>unifier/pcf.py\<close>,
  \<^verbatim>\<open>unifier/utils/recurrence_transforms_utils.py\<close> and
  \<^verbatim>\<open>pcf_dynamical_parameters.py\<close>. Python integers are \<open>int\<close>, exceptions are
  values of \<open>py_error\<close> on the left of a sum, and an mpmath number is the real it denotes,
  with the rounding of the context it is computed in written out.
\<close>

datatype py_error =
  ValueError | AttributeError | IndexError | KeyError | SingularCoboundaryMatrixError

subsection \<open>The polynomial toolkit (sympy)\<close>

text \<open>
  A sympy polynomial in the index symbol \<open>n\<close> with integer coefficients is the list of
  its coefficients, the coefficient of \<open>n ^ i\<close> at position \<open>i\<close>. \<open>peval p k\<close> is
  \<^verbatim>\<open>p.subs({n: k})\<close> for an integer \<open>k\<close>; \<open>pnorm\<close> drops the zero coefficients at the top.
\<close>

type_synonym ipoly = "int list"

fun peval :: "ipoly \<Rightarrow> int \<Rightarrow> int" where
  "peval [] x = 0"
| "peval (c # cs) x = c + x * peval cs x"

definition pnorm :: "ipoly \<Rightarrow> ipoly" where
  "pnorm p = rev (dropWhile (\<lambda>c. c = 0) (rev p))"

fun padd :: "ipoly \<Rightarrow> ipoly \<Rightarrow> ipoly" where
  "padd [] q = q"
| "padd (c # cs) [] = c # cs"
| "padd (c # cs) (d # ds) = (c + d) # padd cs ds"

definition psmul :: "int \<Rightarrow> ipoly \<Rightarrow> ipoly" where
  "psmul k p = map (\<lambda>c. k * c) p"

definition psub :: "ipoly \<Rightarrow> ipoly \<Rightarrow> ipoly" where
  "psub p q = padd p (psmul (- 1) q)"

fun pmul :: "ipoly \<Rightarrow> ipoly \<Rightarrow> ipoly" where
  "pmul [] q = []"
| "pmul (c # cs) q = padd (psmul c q) (0 # pmul cs q)"

text \<open>\<open>pcompose p q\<close> is \<^verbatim>\<open>p.subs({n: q})\<close> for a polynomial \<open>q\<close>.\<close>

fun pcompose :: "ipoly \<Rightarrow> ipoly \<Rightarrow> ipoly" where
  "pcompose [] q = []"
| "pcompose (c # cs) q = padd [c] (pmul q (pcompose cs q))"

definition lead :: "ipoly \<Rightarrow> int" where
  "lead p = (if p = [] then 0 else last p)"

definition monomial :: "int \<Rightarrow> nat \<Rightarrow> ipoly" where
  "monomial c k = replicate k 0 @ [c]"

text \<open>
  The greatest common divisor in \<open>\<int>[n]\<close>, by the primitive polynomial remainder sequence:
  the content is the gcd of the coefficients, \<open>pprim\<close> divides it out, and \<open>prem\<close> is the
  pseudo-remainder. The loops run on a counter that the degrees bound.
\<close>

definition pcontent :: "ipoly \<Rightarrow> int" where
  "pcontent p = foldr gcd p 0"

definition pprim :: "ipoly \<Rightarrow> ipoly" where
  "pprim p = (if pcontent p = 0 then [] else map (\<lambda>c. c div pcontent p) p)"

fun prem_aux :: "nat \<Rightarrow> ipoly \<Rightarrow> ipoly \<Rightarrow> ipoly" where
  "prem_aux 0 f g = f"
| "prem_aux (Suc k) f g =
     (if length f < length g then f
      else prem_aux k (pnorm (psub (psmul (lead g) f)
                                   (pmul (monomial (lead f) (length f - length g)) g))) g)"

definition prem :: "ipoly \<Rightarrow> ipoly \<Rightarrow> ipoly" where
  "prem f g = prem_aux (length f) f g"

fun pgcd_aux :: "nat \<Rightarrow> ipoly \<Rightarrow> ipoly \<Rightarrow> ipoly" where
  "pgcd_aux 0 f g = f"
| "pgcd_aux (Suc k) f g = (if g = [] then f else pgcd_aux k g (pprim (prem f g)))"

definition ppos :: "ipoly \<Rightarrow> ipoly" where
  "ppos p = (if lead p < 0 then psmul (- 1) p else p)"

definition pgcd :: "ipoly \<Rightarrow> ipoly \<Rightarrow> ipoly" where
  "pgcd f g =
     (let f' = pnorm f; g' = pnorm g
      in ppos (psmul (gcd (pcontent f') (pcontent g'))
                     (pprim (pgcd_aux (length f' + length g' + 1) (pprim f') (pprim g')))))"

text \<open>
  Exact division by long division; the quotient is returned only when multiplying it back
  gives the dividend.
\<close>

fun pquot_aux :: "nat \<Rightarrow> ipoly \<Rightarrow> ipoly \<Rightarrow> ipoly \<Rightarrow> ipoly" where
  "pquot_aux 0 f g q = q"
| "pquot_aux (Suc k) f g q =
     (if length f < length g \<or> g = [] then q
      else let t = monomial (lead f div lead g) (length f - length g)
           in pquot_aux k (pnorm (psub f (pmul t g))) g (padd q t))"

definition pdiv_exact :: "ipoly \<Rightarrow> ipoly \<Rightarrow> ipoly option" where
  "pdiv_exact f g =
     (let q = pnorm (pquot_aux (length f) (pnorm f) (pnorm g) [])
      in if pnorm (pmul q g) = pnorm f then Some q else None)"

text \<open>\<^verbatim>\<open>sp.lcm\<close> of two polynomials, with a positive leading coefficient.\<close>

definition plcm :: "ipoly \<Rightarrow> ipoly \<Rightarrow> ipoly" where
  "plcm f g =
     (case pdiv_exact (pmul f g) (pgcd f g) of
        Some h \<Rightarrow> ppos h
      | None \<Rightarrow> ppos (pnorm (pmul f g)))"

text \<open>
  The integer roots that \<^verbatim>\<open>sp.solve(p, n)\<close> returns, as in
  \<^verbatim>\<open>[z for z in sp.solve(p, n) if isinstance(z, sp.Integer) or isinstance(z, int)]\<close>.
  For the zero polynomial and for a nonzero constant \<^verbatim>\<open>sp.solve\<close> returns the empty list.
  A nonzero integer root divides the lowest nonzero coefficient, which bounds the search.
\<close>

definition int_roots :: "ipoly \<Rightarrow> int list" where
  "int_roots p =
     (case dropWhile (\<lambda>c. c = 0) p of
        [] \<Rightarrow> []
      | c # cs \<Rightarrow> filter (\<lambda>z. peval p z = 0) [- \<bar>c\<bar> .. \<bar>c\<bar>])"

text \<open>
  A rational function of \<open>n\<close> is a pair (numerator, denominator) of polynomials.
  \<open>cancel\<close> is \<^verbatim>\<open>sp.simplify(sp.cancel(e))\<close>: the fraction in lowest terms over \<open>\<int>[n]\<close> with
  a positive leading coefficient in the denominator. \<open>rf_mul\<close> is the product expression
  \<^verbatim>\<open>e1 * e2\<close>, \<open>rf_subs r q\<close> is \<^verbatim>\<open>r.subs({n: q})\<close>, \<open>rf_recip r\<close> is \<^verbatim>\<open>1 / r\<close>, and
  \<open>as_numer_denom\<close> reads the pair off.
\<close>

type_synonym ratfun = "ipoly \<times> ipoly"

definition cancel :: "ratfun \<Rightarrow> ratfun" where
  "cancel r =
     (case r of (p, q) \<Rightarrow>
        let g = (if lead (pnorm q) < 0 then psmul (- 1) (pgcd p q) else pgcd p q)
        in case (pdiv_exact p g, pdiv_exact q g) of
             (Some p', Some q') \<Rightarrow> (p', q')
           | _ \<Rightarrow> (pnorm p, pnorm q))"

definition as_numer_denom :: "ratfun \<Rightarrow> ipoly \<times> ipoly" where
  "as_numer_denom r = r"

definition rf_mul :: "ratfun \<Rightarrow> ratfun \<Rightarrow> ratfun" where
  "rf_mul r s = (pnorm (pmul (fst r) (fst s)), pnorm (pmul (snd r) (snd s)))"

definition rf_subs :: "ratfun \<Rightarrow> ipoly \<Rightarrow> ratfun" where
  "rf_subs r q = (pnorm (pcompose (fst r) q), pnorm (pcompose (snd r) q))"

definition rf_poly :: "ipoly \<Rightarrow> ratfun" where
  "rf_poly p = (pnorm p, [1])"

definition rf_recip :: "ratfun \<Rightarrow> ratfun" where
  "rf_recip r = (snd r, fst r)"

text \<open>The value of a rational function at an integer index (0 at a pole).\<close>

definition rf_val :: "ratfun \<Rightarrow> int \<Rightarrow> rat" where
  "rf_val r k = of_int (peval (fst r) k) / of_int (peval (snd r) k)"

text \<open>\<^verbatim>\<open>int(e.subs({n: k}))\<close> for an expression \<open>e\<close> that is a polynomial.\<close>

definition rf_int_at :: "ratfun \<Rightarrow> int \<Rightarrow> int" where
  "rf_int_at r k = peval (fst r) k div peval (snd r) k"

subsection \<open>The class \<^verbatim>\<open>PCF\<close> (\<^verbatim>\<open>unifier/pcf.py\<close>)\<close>

record PCF =
  a :: ratfun
  b :: ratfun
  inflate_to_integer_polynomials :: ratfun
  inflated_by :: ratfun
  a_compute :: ratfun
  b_compute :: ratfun

text \<open>
  \<^verbatim>\<open>
  def __init__(self, a, b, variable=n, inflated_by=None):
      self.a = sp.simplify(sp.cancel(sp.sympify(a).subs({variable: n})))
      self.b = sp.simplify(sp.cancel(sp.sympify(b).subs({variable: n})))
      if inflated_by is None:
          inflated_by = sp.Integer(1)
      self.inflate_to_integer_polynomials = sp.simplify(sp.cancel(
          sp.lcm([self.a.as_numer_denom()[1], self.b.as_numer_denom()[1]])))
      self.inflated_by = inflated_by * self.inflate_to_integer_polynomials
      self.a_compute = sp.simplify(sp.cancel(a * self.inflate_to_integer_polynomials))
      self.b_compute = sp.simplify(sp.cancel(
          b * self.inflate_to_integer_polynomials
            * self.inflate_to_integer_polynomials.subs({n: n-1})))
  \<close>
  The arguments are given in the symbol \<open>n\<close> (the default \<^verbatim>\<open>variable\<close>).
\<close>

definition PCF_init :: "ratfun \<Rightarrow> ratfun \<Rightarrow> ratfun option \<Rightarrow> PCF" where
  "PCF_init a0 b0 inflated_by0 =
     (let a' = cancel a0;
          b' = cancel b0;
          seed = (case inflated_by0 of None \<Rightarrow> rf_poly [1] | Some r \<Rightarrow> r);
          l = cancel (rf_poly (plcm (snd (as_numer_denom a')) (snd (as_numer_denom b'))))
      in \<lparr> a = a', b = b',
           inflate_to_integer_polynomials = l,
           inflated_by = rf_mul seed l,
           a_compute = cancel (rf_mul a0 l),
           b_compute = cancel (rf_mul (rf_mul b0 l) (rf_subs l [- 1, 1])) \<rparr>)"

text \<open>
  \<^verbatim>\<open>
  def subs(self, dict):
      return PCF(self.a.subs(dict), self.b.subs(dict))
  \<close>
  with \<^verbatim>\<open>dict = {n: q}\<close>.
\<close>

definition subs :: "PCF \<Rightarrow> ipoly \<Rightarrow> PCF" where
  "subs p q = PCF_init (rf_subs (a p) q) (rf_subs (b p) q) None"

text \<open>
  \<^verbatim>\<open>
  def inflate(self, c):
      return PCF(self.a * c, self.b * c * c.subs({n: n-1}),
                 inflated_by=sp.simplify(sp.cancel(self.inflated_by*c)))
  \<close>
\<close>

definition inflate :: "PCF \<Rightarrow> ratfun \<Rightarrow> PCF" where
  "inflate p c =
     PCF_init (rf_mul (a p) c) (rf_mul (rf_mul (b p) c) (rf_subs c [- 1, 1]))
              (Some (cancel (rf_mul (inflated_by p) c)))"

text \<open>
  Modelled from the spec: \<^verbatim>\<open>content\<close> of \<^verbatim>\<open>unifier/utils/pcf_utils.py\<close> is not among the
  sources. The spec has it as the polynomial content (GCD) of the numerator polynomials
  of \<open>a\<close> and \<open>b\<close>, the GCD of a set of polynomials over the index ring.
\<close>

definition content :: "ipoly \<Rightarrow> ipoly \<Rightarrow> ipoly" where
  "content f g = pgcd f g"

text \<open>
  \<^verbatim>\<open>
  def deflate_all(self):
      return self.inflate(1 / content(self.a.as_numer_denom()[0],
                                      self.b.as_numer_denom()[0], [n]))
  \<close>
\<close>

definition deflate_all :: "PCF \<Rightarrow> PCF" where
  "deflate_all p =
     inflate p (rf_recip (rf_poly (content (fst (as_numer_denom (a p)))
                                           (fst (as_numer_denom (b p))))))"

subsection \<open>Step matrices, \<^verbatim>\<open>step\<close>, \<^verbatim>\<open>precision\<close> and \<^verbatim>\<open>limit\<close>\<close>

text \<open>A step matrix \<^verbatim>\<open>[[p1, p2], [q1, q2]]\<close> of exact integers.\<close>

type_synonym matrix = "(int \<times> int) \<times> (int \<times> int)"

definition mat_mul :: "matrix \<Rightarrow> matrix \<Rightarrow> matrix" where
  "mat_mul m m' =
     (case m of ((x11, x12), (x21, x22)) \<Rightarrow>
      case m' of ((y11, y12), (y21, y22)) \<Rightarrow>
        ((x11 * y11 + x12 * y21, x11 * y12 + x12 * y22),
         (x21 * y11 + x22 * y21, x21 * y12 + x22 * y22)))"

text \<open>
  Modelled from the spec: \<^verbatim>\<open>eval\<close> of the class \<^verbatim>\<open>PCF\<close> of
  \<^verbatim>\<open>unifier/utils/LIReC_utils/pcf.py\<close> is not among the sources. The spec has the step
  matrix at \<open>depth\<close> as the product of the recurrence matrices \<open>[[0, b(k)], [1, a(k)]]\<close> for
  \<open>k = 1..depth\<close>, taken on \<^verbatim>\<open>a_compute\<close> and \<^verbatim>\<open>b_compute\<close> and left-multiplied by the
  initial conditions, and an invalid-argument failure for \<open>depth < 1\<close>.
\<close>

fun eval_loop :: "ratfun \<Rightarrow> ratfun \<Rightarrow> nat \<Rightarrow> int \<Rightarrow> matrix \<Rightarrow> matrix" where
  "eval_loop fa fb 0 k m = m"
| "eval_loop fa fb (Suc r) k m =
     eval_loop fa fb r (k + 1) (mat_mul m ((0, rf_int_at fb k), (1, rf_int_at fa k)))"

definition LPCF_eval :: "ratfun \<Rightarrow> ratfun \<Rightarrow> matrix \<Rightarrow> int \<Rightarrow> py_error + matrix" where
  "LPCF_eval fa fb mat depth =
     (if depth < 1 then Inl ValueError else Inr (eval_loop fa fb (nat depth) 1 mat))"

text \<open>
  \<^verbatim>\<open>
  def step(self, depth, initial_conditions=None, return_sympy=True):
      if initial_conditions is None:
          initial_conditions = [1, int(self.a_compute.subs({n: 0})), 0, 1]
      if isinstance(initial_conditions, sp.Matrix):
          initial_conditions = [int(initial_conditions[0, 0]), int(initial_conditions[0, 1]),
                                int(initial_conditions[1, 0]), int(initial_conditions[1, 1])]
      elif not isinstance(initial_conditions, list):
          raise(ValueError('`initial_conditions` must be a sympy matrix or list'))
      temp_rep = self.lirec(mat=initial_conditions)
      temp_rep.eval(depth=depth)
      mat = temp_rep.mat
      ...
      return mat
  \<close>
  The argument \<^verbatim>\<open>initial_conditions\<close> is \<^verbatim>\<open>None\<close>, a sympy matrix, a list of the four
  entries, or something else.
\<close>

datatype initial_conditions = NoneIC | MatrixIC matrix | ListIC "int list" | OtherIC

definition step :: "PCF \<Rightarrow> int \<Rightarrow> initial_conditions \<Rightarrow> py_error + matrix" where
  "step p depth ic =
     (case (case ic of NoneIC \<Rightarrow> ListIC [1, rf_int_at (a_compute p) 0, 0, 1] | _ \<Rightarrow> ic) of
        MatrixIC m \<Rightarrow> LPCF_eval (a_compute p) (b_compute p) m depth
      | ListIC [m11, m12, m21, m22] \<Rightarrow>
          LPCF_eval (a_compute p) (b_compute p) ((m11, m12), (m21, m22)) depth
      | _ \<Rightarrow> Inl ValueError)"

text \<open>
  mpmath numbers. An mpf of precision \<open>prec\<close> is a real \<open>m * 2\<^sup>e\<close> with an integer mantissa
  \<open>m\<close> of at most \<open>prec\<close> bits, and an operation of a context rounds its exact result to
  such a number, to the nearest one and to the even mantissa in a tie. \<open>mpf_round prec x\<close>
  is this rounding: the exponent \<open>e\<close> puts the mantissa \<open>x / 2\<^sup>e\<close> between \<open>2\<^bsup>prec - 1\<^esup>\<close>
  and \<open>2\<^bsup>prec\<^esup>\<close>. The functions of the module \<^verbatim>\<open>mpmath\<close> work in its default context, of 53
  bits (\<^verbatim>\<open>dps = 15\<close>); \<^verbatim>\<open>mp\<close> above sets the digits of a clone and leaves that context
  alone.
\<close>

definition round_half_even :: "real \<Rightarrow> int" where
  "round_half_even y =
     (let f = \<lfloor>y\<rfloor>; d = y - of_int f
      in if d < 1 / 2 then f else if 1 / 2 < d then f + 1 else if even f then f else f + 1)"

definition mpf_round :: "nat \<Rightarrow> real \<Rightarrow> real" where
  "mpf_round prec x =
     (if x = 0 then 0
      else let e = \<lfloor>log 2 \<bar>x\<bar>\<rfloor> - int prec + 1
           in of_int (round_half_even (x / 2 powr of_int e)) * 2 powr of_int e)"

definition mp_prec :: nat where
  "mp_prec = 53"

text \<open>
  The real part of \<^verbatim>\<open>ln(x, prec=wp)\<close> for a nonzero integer \<open>x\<close>. The integer is converted
  exactly and the logarithm is rounded to \<open>wp\<close> bits (it is taken as correctly rounded).
  The logarithm of a negative number is complex, \<open>ln |x| + i\<pi>\<close>, and mpmath computes its
  real part from the absolute value rounded to \<open>wp\<close> bits.
\<close>

definition mpf_ln_re :: "nat \<Rightarrow> int \<Rightarrow> real" where
  "mpf_ln_re wp x =
     mpf_round wp (ln (if x < 0 then mpf_round wp \<bar>real_of_int x\<bar> else real_of_int x))"

text \<open>
  \<^verbatim>\<open>mm.re(mm.log(x, base))\<close> for a nonzero integer \<open>x\<close> and a base of at least 2. mpmath has
  \<^verbatim>\<open>log(x, b)\<close> as \<^verbatim>\<open>ln(x, prec=wp) / ln(b, prec=wp)\<close> with \<^verbatim>\<open>wp = prec + 20\<close>: the quotient
  of the two rounded logarithms, rounded to the precision of the context. Dividing by the
  real \<open>ln base\<close> divides the real part.
\<close>

definition mm_log_re :: "int \<Rightarrow> int \<Rightarrow> real" where
  "mm_log_re x base =
     mpf_round mp_prec (mpf_ln_re (mp_prec + 20) x / mpf_ln_re (mp_prec + 20) base)"

text \<open>
  \<^verbatim>\<open>
  def precision(matrix, base: int = 10) -> int:
      p1, p2 = matrix[0]
      q1, q2 = matrix[1]
      numerator = p2 * q1 - q2 * p1
      denominator = q1 * q2
      if denominator == 0:
          return 0
      if numerator == 0:
          return 100  # big enough, this should be infinity
      digits = -mm.re((mm.log(int(numerator), base) - mm.log(int(denominator), base)))
      return int(mm.floor(digits))
  \<close>
  The difference of the two logarithms is a subtraction of mpmath numbers, rounded to the
  precision of the context; the negation and the floor are exact.
\<close>

definition precision :: "matrix \<Rightarrow> int \<Rightarrow> int" where
  "precision m base =
     (case m of ((p1, p2), (q1, q2)) \<Rightarrow>
        let numerator = p2 * q1 - q2 * p1;
            denominator = q1 * q2
        in if denominator = 0 then 0
           else if numerator = 0 then 100
           else \<lfloor>- mpf_round mp_prec (mm_log_re numerator base
                                      - mm_log_re denominator base)\<rfloor>)"

text \<open>
  \<^verbatim>\<open>
  def limit(self, depth, initial_conditions=None, prec=None, return_sympy_rational=False):
      step_mat = self.step(depth, initial_conditions, return_sympy=False)
      if prec is None:
          prec = precision(step_mat)
      numerator = sp.Integer(step_mat[0][1])
      denominator = sp.Integer(step_mat[1][1])
      inflation_factor_num, inflation_factor_den = (
          self.inflated_by * (n+1)).subs({n: 0}).as_numer_denom()
      if not return_sympy_rational:
          cur_mp = mp(precision=prec)
          numerator = cur_mp.mpf(numerator) * cur_mp.mpf(inflation_factor_den)
          denominator = cur_mp.mpf(denominator) * cur_mp.mpf(inflation_factor_num)
          result = numerator / denominator
      else:
          numerator = numerator * inflation_factor_den
          denominator = denominator * inflation_factor_num
          result = sp.Rational(numerator, denominator)
      return result, prec
  \<close>
  \<^verbatim>\<open>mp(precision)\<close> clones the mpmath context and sets its \<^verbatim>\<open>dps\<close>, the working number of
  decimal digits. The quotient computed in that context is recorded as \<open>MpfQuotient\<close> with
  the \<^verbatim>\<open>dps\<close> of the context and the two exact integers that are divided.
\<close>

datatype limit_value =
  MpfQuotient (dps: int) (dividend: int) (divisor: int)
| SympyRational int int

definition rat_numer_denom :: "int \<Rightarrow> int \<Rightarrow> int \<times> int" where
  "rat_numer_denom x y = (let g = gcd x y * sgn y in (x div g, y div g))"

definition inflation_factor :: "PCF \<Rightarrow> int \<times> int" where
  "inflation_factor p =
     (let e = rf_subs (rf_mul (inflated_by p) (rf_poly [1, 1])) [0]
      in rat_numer_denom (peval (fst e) 0) (peval (snd e) 0))"

definition limit ::
  "PCF \<Rightarrow> int \<Rightarrow> initial_conditions \<Rightarrow> int option \<Rightarrow> bool \<Rightarrow> py_error + limit_value \<times> int" where
  "limit p depth ic prec return_sympy_rational =
     (case step p depth ic of
        Inl e \<Rightarrow> Inl e
      | Inr step_mat \<Rightarrow>
          let prec' = (case prec of None \<Rightarrow> precision step_mat 10 | Some d \<Rightarrow> d);
              numerator = snd (fst step_mat);
              denominator = snd (snd step_mat);
              inflation_factor_num = fst (inflation_factor p);
              inflation_factor_den = snd (inflation_factor p)
          in if \<not> return_sympy_rational
             then Inr (MpfQuotient prec' (numerator * inflation_factor_den)
                                         (denominator * inflation_factor_num), prec')
             else Inr (SympyRational (numerator * inflation_factor_den)
                                     (denominator * inflation_factor_num), prec'))"

subsection \<open>\<^verbatim>\<open>compute_dynamics\<close>\<close>

text \<open>
  An mpmath or Python floating-point value: infinite, not a number, or finite.
\<close>

datatype mpf = PlusInf | MinusInf | NaN | Finite real

text \<open>
  \<^verbatim>\<open>
  def compute_dynamics(self, depth=2000, max_iters=5, depth_shift=100, verbose=False):
      orig_depth = depth
      delta = float('+inf')
      i = 0; success = False
      while (delta == float('+inf') or not success) and i < max_iters:
          try:
              delta = round(float(self.delta(depth)), 5)
              if delta != float('+inf'):
                  success = True
          except Exception as e:
              success = False
          depth += depth_shift; i += 1
      depth = orig_depth
      convrate = 0
      i = 0; success = False
      while not success and i < max_iters:
          try:
              convrate = round(float(self.convergence_rate(depth)), 5)
              success = True
          except Exception as e:
              ...
          depth += depth_shift; i += 1
      return delta, convrate
  \<close>
  \<open>delta_try depth\<close> stands for \<^verbatim>\<open>round(float(self.delta(depth)), 5)\<close> and
  \<open>convrate_try depth\<close> for \<^verbatim>\<open>round(float(self.convergence_rate(depth)), 5)\<close>: each either
  raises or yields a float, in whatever way. The loops return their state, the value
  and the counter \<open>i\<close>.
\<close>

function delta_retry_loop ::
  "(int \<Rightarrow> py_error + mpf) \<Rightarrow> int \<Rightarrow> int \<Rightarrow> int \<Rightarrow> mpf \<Rightarrow> int \<Rightarrow> bool \<Rightarrow> mpf \<times> int" where
  "delta_retry_loop delta_try max_iters depth_shift depth delta_v i success =
     (if (delta_v = PlusInf \<or> \<not> success) \<and> i < max_iters then
        (case delta_try depth of
           Inr v \<Rightarrow>
             delta_retry_loop delta_try max_iters depth_shift (depth + depth_shift) v (i + 1)
               (if v \<noteq> PlusInf then True else success)
         | Inl e \<Rightarrow>
             delta_retry_loop delta_try max_iters depth_shift (depth + depth_shift) delta_v (i + 1)
               False)
      else (delta_v, i))"
  by pat_completeness auto
termination
  by (relation "measure (\<lambda>(delta_try, max_iters, depth_shift, depth, delta_v, i, success).
                  nat (max_iters - i))") auto

function convrate_retry_loop ::
  "(int \<Rightarrow> py_error + mpf) \<Rightarrow> int \<Rightarrow> int \<Rightarrow> int \<Rightarrow> mpf \<Rightarrow> int \<Rightarrow> bool \<Rightarrow> mpf \<times> int" where
  "convrate_retry_loop convrate_try max_iters depth_shift depth convrate i success =
     (if \<not> success \<and> i < max_iters then
        (case convrate_try depth of
           Inr v \<Rightarrow>
             convrate_retry_loop convrate_try max_iters depth_shift (depth + depth_shift) v (i + 1)
               True
         | Inl e \<Rightarrow>
             convrate_retry_loop convrate_try max_iters depth_shift (depth + depth_shift) convrate
               (i + 1) success)
      else (convrate, i))"
  by pat_completeness auto
termination
  by (relation "measure (\<lambda>(convrate_try, max_iters, depth_shift, depth, convrate, i, success).
                  nat (max_iters - i))") auto

declare delta_retry_loop.simps [simp del]

declare convrate_retry_loop.simps [simp del]

definition compute_dynamics ::
  "(int \<Rightarrow> py_error + mpf) \<Rightarrow> (int \<Rightarrow> py_error + mpf) \<Rightarrow> int \<Rightarrow> int \<Rightarrow> int \<Rightarrow> mpf \<times> mpf" where
  "compute_dynamics delta_try convrate_try depth max_iters depth_shift =
     (fst (delta_retry_loop delta_try max_iters depth_shift depth PlusInf 0 False),
      fst (convrate_retry_loop convrate_try max_iters depth_shift depth (Finite 0) 0 False))"

subsection \<open>Transforms (\<^verbatim>\<open>unifier/utils/recurrence_transforms_utils.py\<close>)\<close>

text \<open>
  \<^verbatim>\<open>
  def get_zeros(pcf: PCF):
      zerosbnum = [z for z in sp.solve(pcf.b.as_numer_denom()[0], n) if isinstance(z, sp.Integer) ...]
      zerosbden = [z for z in sp.solve(pcf.b.as_numer_denom()[1], n) if isinstance(z, sp.Integer) ...]
      zerosaden = [z for z in sp.solve(pcf.a.as_numer_denom()[1], n) if isinstance(z, sp.Integer) ...]
      return {'b_num': zerosbnum, 'b_den': zerosbden, 'a_den': zerosaden}
  \<close>
\<close>

record zeros =
  b_num :: "int list"
  b_den :: "int list"
  a_den :: "int list"

definition get_zeros :: "PCF \<Rightarrow> zeros" where
  "get_zeros pcf =
     \<lparr> b_num = int_roots (fst (as_numer_denom (b pcf))),
       b_den = int_roots (snd (as_numer_denom (b pcf))),
       a_den = int_roots (snd (as_numer_denom (a pcf))) \<rparr>"

text \<open>
  \<^verbatim>\<open>
  def get_shift(pcf: PCF):
      zeros = get_zeros(pcf)
      shifta_den = int(max(zeros['a_den'])) + 1 if zeros['a_den'] else 0
      # + 1 because a0 is necessary for computation of the PCF
      # For b, index 1 is the lowest in the PCF so it suffices to shift by precisely the highest zero
      shiftb_den = max(zeros['b_den']) if zeros['b_den'] else 0
      shiftb_num = max(zeros['b_num']) if zeros['b_num'] else 0
      return max(shifta_den, shiftb_den, shiftb_num)
  \<close>
\<close>

definition py_max :: "int list \<Rightarrow> int" where
  "py_max xs = Max (set xs)"

definition get_shift :: "PCF \<Rightarrow> int" where
  "get_shift pcf =
     (let zs = get_zeros pcf;
          shifta_den = (if a_den zs \<noteq> [] then py_max (a_den zs) + 1 else 0);
          shiftb_den = (if b_den zs \<noteq> [] then py_max (b_den zs) else 0);
          shiftb_num = (if b_num zs \<noteq> [] then py_max (b_num zs) else 0)
      in max shifta_den (max shiftb_den shiftb_num))"

text \<open>
  \<^verbatim>\<open>
  def shift_to_viable(pcf: PCF):
      shift = get_shift(pcf)
      return pcf.subs({n: n + shift}), shift
  \<close>
\<close>

definition shift_to_viable :: "PCF \<Rightarrow> PCF \<times> int" where
  "shift_to_viable pcf = (let shift = get_shift pcf in (subs pcf [shift, 1], shift))"

text \<open>
  Viability of a PCF from the index \<open>s\<close> onward, as the comments of \<^verbatim>\<open>get_shift\<close> read it: the
  denominator of \<open>a\<close> has no integer root at an index \<open>k \<ge> s\<close>, and neither the denominator
  nor the numerator of \<open>b\<close> has one at an index \<open>k \<ge> s + 1\<close> (the recursion uses \<open>a\<close> from
  index 0 and \<open>b\<close> from index 1).
\<close>

definition viable_from :: "PCF \<Rightarrow> int \<Rightarrow> bool" where
  "viable_from pcf s \<longleftrightarrow>
     (\<forall>k\<ge>s. peval (snd (a pcf)) k \<noteq> 0)
     \<and> (\<forall>k\<ge>s + 1. peval (snd (b pcf)) k \<noteq> 0 \<and> peval (fst (b pcf)) k \<noteq> 0)"

text \<open>
  \<^verbatim>\<open>
  def get_folded_pcf_limit(pcf, factor, limit, symbol=n, deflate_all=True):
      foldedmat = fold_matrix(pcf.M(), factor, symbol=symbol)
      foldedpcf = as_pcf(foldedmat, deflate_all=deflate_all)
      U = as_pcf_cob(foldedmat, deflate_all=deflate_all)
      if U.subs({n: 1}).det() == 0:
          raise SingularCoboundaryMatrixError(...)
      return mobius(foldedpcf.A() * U.subs({n: 1}).inv() * pcf.A().inv(), limit)
  \<close>
  The module takes \<^verbatim>\<open>PCF\<close> from \<^verbatim>\<open>unifier/pcf.py\<close>. That class defines the recurrence
  matrix as the method \<^verbatim>\<open>CM\<close> and the initial matrix as \<^verbatim>\<open>A\<close>; it has no attribute \<^verbatim>\<open>M\<close>,
  no \<^verbatim>\<open>__getattr__\<close> and no base class, so the attribute lookup \<^verbatim>\<open>pcf.M\<close> raises
  \<^verbatim>\<open>AttributeError\<close>. \<open>rest\<close> stands for the statements after \<^verbatim>\<open>pcf.M()\<close> has returned
  the matrix \<open>m\<close>.
\<close>

definition PCF_M :: "PCF \<Rightarrow> py_error + 'm" where
  "PCF_M pcf = Inl AttributeError"

definition get_folded_pcf_limit ::
  "('m \<Rightarrow> int \<Rightarrow> 'v \<Rightarrow> py_error + 'v) \<Rightarrow> PCF \<Rightarrow> int \<Rightarrow> 'v \<Rightarrow> py_error + 'v" where
  "get_folded_pcf_limit rest pcf factor limit_arg =
     (case PCF_M pcf of Inl e \<Rightarrow> Inl e | Inr m \<Rightarrow> rest m factor limit_arg)"

subsection \<open>The class \<^verbatim>\<open>PCFDynamics\<close> (\<^verbatim>\<open>pcf_dynamical_parameters.py\<close>)\<close>

text \<open>
  \<^verbatim>\<open>PCFDynamics\<close> wraps a \<^verbatim>\<open>PCF\<close> of the library ramanujantools. The methods of that
  object are parameters here: \<open>pcf_subs pcf s\<close> is \<^verbatim>\<open>pcf.subs({n: n + s})\<close>,
  \<open>pcf_delta pcf d limit\<close> is \<^verbatim>\<open>pcf.delta(d, limit=limit)\<close>, which raises or returns an mpf
  or \<^verbatim>\<open>None\<close>, and \<open>pcf_limit i\<close> is the \<^verbatim>\<open>Limit\<close> object that \<^verbatim>\<open>pcf.limit\<close> returns for the
  iteration index \<open>i\<close> (for a list of indices, the list of these objects), with its methods
  \<open>as_float\<close> and \<open>as_rational\<close>.
  \<^verbatim>\<open>
  @staticmethod
  def CIDS():
      return 2 # CONVERGENT_INDEX_DEFINIION_SHIFT between pcf.limit and our implementation

  def check_positive(self, depth):
      if depth < 1:
          raise ValueError('Depth must be positive.')
  \<close>
\<close>

definition CIDS :: int where
  "CIDS = 2"

text \<open>
  \<^verbatim>\<open>
  def delta(self, depth: int, limit=None, shift_step=5, max_shift=10) -> float:
      self.check_positive(depth)
      result = mm.mpf('+inf')
      shift = 0
      while result == mm.mpf('+inf'):
          if shift > max_shift:
              break
          result = self.pcf.subs({n: n+shift}).delta(depth + self.CIDS(), limit=limit)
          shift += shift_step
      return result
  \<close>
  The loop may run forever, so it is a partial function: \<open>None\<close> is not returning. It
  returns its state, the result and \<open>shift\<close>.
\<close>

partial_function (option) delta_loop ::
  "(int \<Rightarrow> py_error + mpf option) \<Rightarrow> int \<Rightarrow> int \<Rightarrow> int \<Rightarrow> mpf option
     \<Rightarrow> ((py_error + mpf option) \<times> int) option" where
  "delta_loop attempt shift_step max_shift shift result =
     (if result = Some PlusInf then
        if shift > max_shift then Some (Inr result, shift)
        else (case attempt shift of
                Inl e \<Rightarrow> Some (Inl e, shift)
              | Inr r \<Rightarrow> delta_loop attempt shift_step max_shift (shift + shift_step) r)
      else Some (Inr result, shift))"

definition delta ::
  "('pcf \<Rightarrow> int \<Rightarrow> 'pcf) \<Rightarrow> ('pcf \<Rightarrow> int \<Rightarrow> 'lim \<Rightarrow> py_error + mpf option) \<Rightarrow> 'pcf
     \<Rightarrow> int \<Rightarrow> 'lim \<Rightarrow> int \<Rightarrow> int \<Rightarrow> (py_error + mpf option) option" where
  "delta pcf_subs pcf_delta pcf depth limit_arg shift_step max_shift =
     (if depth < 1 then Some (Inl ValueError)
      else map_option fst
             (delta_loop (\<lambda>shift. pcf_delta (pcf_subs pcf shift) (depth + CIDS) limit_arg)
                         shift_step max_shift 0 (Some PlusInf)))"

text \<open>
  The spec's reading of the retry, for comparison: the same PCF at the depth increased by
  the accumulated shift.
\<close>

definition delta_at_shifted_depth ::
  "('pcf \<Rightarrow> int \<Rightarrow> 'lim \<Rightarrow> py_error + mpf option) \<Rightarrow> 'pcf
     \<Rightarrow> int \<Rightarrow> 'lim \<Rightarrow> int \<Rightarrow> int \<Rightarrow> (py_error + mpf option) option" where
  "delta_at_shifted_depth pcf_delta pcf depth limit_arg shift_step max_shift =
     (if depth < 1 then Some (Inl ValueError)
      else map_option fst
             (delta_loop (\<lambda>shift. pcf_delta pcf (depth + shift + CIDS) limit_arg)
                         shift_step max_shift 0 (Some PlusInf)))"

text \<open>
  \<^verbatim>\<open>
  def errors(self, depths: List[int], limit=None, log=False) -> Collection[float]:
      depths = sorted(list(set(depths)))
      self.check_positive(depths[0])
      iterations = [depth + self.CIDS() for depth in depths]
      if limit is None:
          iterations.append(2 * depths[-1] + self.CIDS())
          limits = self.pcf.limit(iterations)
          limit = limits[-1].as_float()
      else:
          limits = self.pcf.limit(iterations)
      errors = [abs(mm.mp.mpf(limit - limits[i].as_float())) for i, depth in enumerate(depths)]
      if log:
          errors = [mm.log(err, 10) for err in errors]
      return errors
  \<close>
\<close>

definition errors ::
  "(int \<Rightarrow> 'l) \<Rightarrow> ('l \<Rightarrow> real) \<Rightarrow> int list \<Rightarrow> real option \<Rightarrow> bool \<Rightarrow> py_error + real list" where
  "errors pcf_limit as_float depths limit_arg log_flag =
     (let depths' = sort (remdups depths)
      in if depths' = [] then Inl IndexError
         else if hd depths' < 1 then Inl ValueError
         else
           let iterations = map (\<lambda>depth. depth + CIDS) depths';
               iterations' = (if limit_arg = None then iterations @ [2 * last depths' + CIDS]
                              else iterations);
               limits = map pcf_limit iterations';
               limit_val = (case limit_arg of None \<Rightarrow> as_float (last limits) | Some l \<Rightarrow> l);
               errs = map (\<lambda>i. \<bar>limit_val - as_float (limits ! i)\<bar>) [0 ..< length depths']
           in Inr (if log_flag then map (log 10) errs else errs))"

text \<open>
  \<^verbatim>\<open>
  @ staticmethod
  def q_red(limit: Limit):
      p, q = limit.as_rational()
      gcd = sp.gcd(p, q)
      return q / gcd

  def q_reds(self, depths: List[int], log=False) -> Collection[float]:
      depths = sorted(list(set(depths)))
      depth_to_ind = {depth: i for i, depth in enumerate(list(range(1, depths[-1] + 1)))}
      self.check_positive(depths[-1])
      limits = self.pcf.limit(list(range(self.CIDS(), depths[-1] + self.CIDS())))
      if log:
          return [mm.log(self.q_red(limits[depth_to_ind[depth]]), 10) for depth in depths]
      else:
          return [self.q_red(limits[depth_to_ind[depth]]) for depth in depths]
  \<close>
\<close>

definition q_red :: "int \<times> int \<Rightarrow> int" where
  "q_red pq = (case pq of (p, q) \<Rightarrow> q div gcd p q)"

definition depth_to_ind :: "int \<Rightarrow> int \<rightharpoonup> nat" where
  "depth_to_ind top_depth depth = (if 1 \<le> depth \<and> depth \<le> top_depth then Some (nat (depth - 1)) else None)"

fun collect :: "('x \<Rightarrow> py_error + 'y) \<Rightarrow> 'x list \<Rightarrow> py_error + 'y list" where
  "collect f [] = Inr []"
| "collect f (x # xs) =
     (case f x of
        Inl e \<Rightarrow> Inl e
      | Inr y \<Rightarrow> (case collect f xs of Inl e \<Rightarrow> Inl e | Inr ys \<Rightarrow> Inr (y # ys)))"

definition q_reds ::
  "(int \<Rightarrow> 'l) \<Rightarrow> ('l \<Rightarrow> int \<times> int) \<Rightarrow> int list \<Rightarrow> bool \<Rightarrow> py_error + real list" where
  "q_reds pcf_limit as_rational depths log_flag =
     (let depths' = sort (remdups depths)
      in if depths' = [] then Inl IndexError
         else if last depths' < 1 then Inl ValueError
         else
           let limits = map pcf_limit [CIDS .. last depths' + CIDS - 1]
           in collect (\<lambda>depth.
                 case depth_to_ind (last depths') depth of
                   None \<Rightarrow> Inl KeyError
                 | Some i \<Rightarrow>
                     let v = real_of_int (q_red (as_rational (limits ! i)))
                     in Inr (if log_flag then log 10 v else v))
               depths')"

subsection \<open>Stand-ins for the library object, for the examples\<close>

text \<open>
  Concrete behaviours of the wrapped library object at which the retry loop of
  \<^verbatim>\<open>PCFDynamics.delta\<close> is run below: the index shift is the substitution of the class
  above; one measure is infinite exactly when the partial numerator vanishes at index 1
  (a root interfering at that index) and 0 otherwise, the other is always infinite.
\<close>

definition example_pcf_subs :: "PCF \<Rightarrow> int \<Rightarrow> PCF" where
  "example_pcf_subs p s = subs p [s, 1]"

definition example_pcf_delta :: "PCF \<Rightarrow> int \<Rightarrow> unit \<Rightarrow> py_error + mpf option" where
  "example_pcf_delta p depth limit_arg =
     (if peval (fst (b p)) 1 = 0 then Inr (Some PlusInf) else Inr (Some (Finite 0)))"

definition always_inf_delta :: "PCF \<Rightarrow> int \<Rightarrow> unit \<Rightarrow> py_error + mpf option" where
  "always_inf_delta p depth limit_arg = Inr (Some PlusInf)"

section \<open>Properties\<close>

subsection \<open>Rounding to an mpmath number\<close>

lemma round_half_even_err: "\<bar>of_int (round_half_even y) - y\<bar> \<le> 1 / 2"
proof -
  have "of_int \<lfloor>y\<rfloor> \<le> y" "y < of_int \<lfloor>y\<rfloor> + 1" by linarith+
  then show ?thesis
    by (auto simp: round_half_even_def Let_def)
qed

lemma round_half_even_near:
  assumes "\<bar>y - of_int j\<bar> < 1 / 2"
  shows "round_half_even y = j"
proof (cases "of_int j \<le> y")
  case True
  with assms have "\<lfloor>y\<rfloor> = j" by linarith
  with assms True show ?thesis by (simp add: round_half_even_def Let_def)
next
  case False
  with assms have f: "\<lfloor>y\<rfloor> = j - 1" by linarith
  with assms False show ?thesis by (simp add: round_half_even_def Let_def)
qed

lemma mpf_round_err: "\<bar>mpf_round p x - x\<bar> \<le> \<bar>x\<bar> * 2 powr (- real p)"
proof (cases "x = 0")
  case True
  then show ?thesis by (simp add: mpf_round_def)
next
  case False
  define e where "e = \<lfloor>log 2 \<bar>x\<bar>\<rfloor> - int p + 1"
  define s :: real where "s = 2 powr of_int e"
  have s: "0 < s" by (simp add: s_def)
  have m: "mpf_round p x = of_int (round_half_even (x / s)) * s"
    using False by (simp add: mpf_round_def e_def s_def Let_def)
  have "of_int (round_half_even (x / s)) * s - x
        = (of_int (round_half_even (x / s)) - x / s) * s"
    using s by (simp add: field_simps)
  then have "\<bar>of_int (round_half_even (x / s)) * s - x\<bar>
        = \<bar>of_int (round_half_even (x / s)) - x / s\<bar> * s"
    using s by (simp only: abs_mult abs_of_pos)
  also have "\<dots> \<le> (1 / 2) * s"
    using round_half_even_err [of "x / s"] s by (intro mult_right_mono) simp_all
  also have "\<dots> = 2 powr (of_int e - 1)"
    by (simp add: s_def powr_diff)
  also have "\<dots> \<le> 2 powr (log 2 \<bar>x\<bar> - real p)"
    by (intro powr_mono) (simp_all add: e_def)
  also have "\<dots> = \<bar>x\<bar> * 2 powr (- real p)"
    using False by (simp add: powr_diff powr_minus divide_inverse)
  finally show ?thesis by (simp add: m)
qed

lemma mpf_round_near:
  assumes lo: "2 powr of_int k \<le> \<bar>x\<bar>" and hi: "\<bar>x\<bar> < 2 powr of_int (k + 1)"
    and near: "\<bar>x - of_int j * 2 powr of_int (k - int p + 1)\<bar> < 2 powr of_int (k - int p)"
  shows "mpf_round p x = of_int j * 2 powr of_int (k - int p + 1)"
proof -
  have x0: "x \<noteq> 0" using lo by (smt (verit) powr_gt_zero abs_zero)
  then have pos: "0 < \<bar>x\<bar>" by simp
  have fl: "\<lfloor>log 2 \<bar>x\<bar>\<rfloor> = k"
    using floor_log_eq_powr_iff [OF pos, of 2 k] lo hi by simp
  define s :: real where "s = 2 powr of_int (k - int p + 1)"
  have s: "0 < s" by (simp add: s_def)
  have half: "2 powr of_int (k - int p) = s / 2"
    by (simp add: s_def powr_add powr_diff algebra_simps)
  have "\<bar>x / s - of_int j\<bar> = \<bar>x - of_int j * s\<bar> / s"
    using s by (simp add: field_simps abs_divide)
  also have "\<dots> < (s / 2) / s"
  proof -
    from near have "\<bar>x - of_int j * s\<bar> < s / 2"
      unfolding s_def [symmetric] half .
    with s show ?thesis by (intro divide_strict_right_mono)
  qed
  also have "\<dots> = 1 / 2" using s by simp
  finally have "round_half_even (x / s) = j" by (rule round_half_even_near)
  then show ?thesis
    using x0 by (simp add: mpf_round_def fl s_def Let_def)
qed

subsection \<open>The rounded logarithm of \<^verbatim>\<open>precision\<close>\<close>

lemma quot_err:
  fixes u v U V e :: real
  assumes u: "0 < u" and e: "0 \<le> e" "e \<le> 1 / 4"
    and U: "\<bar>U - u\<bar> \<le> u * e" and V: "\<bar>V - v\<bar> \<le> \<bar>v\<bar> * e"
  shows "\<bar>V / U - v / u\<bar> \<le> \<bar>v\<bar> / u * (4 * e)"
proof -
  have "u * e \<le> u * (1 / 4)" using u e by (intro mult_left_mono) simp_all
  with U have Ulo: "3 / 4 * u \<le> U" by (simp add: abs_le_iff)
  with u have Up: "0 < U" by simp
  have "V * u - v * U = (V - v) * u + v * (u - U)" by (simp add: algebra_simps)
  then have "\<bar>V * u - v * U\<bar> \<le> \<bar>(V - v) * u\<bar> + \<bar>v * (u - U)\<bar>"
    by (simp only: abs_triangle_ineq)
  also have "\<dots> = \<bar>V - v\<bar> * u + \<bar>v\<bar> * \<bar>u - U\<bar>"
    using u by (simp only: abs_mult abs_of_pos)
  also have "\<dots> \<le> (\<bar>v\<bar> * e) * u + \<bar>v\<bar> * (u * e)"
    using U V u by (intro add_mono mult_right_mono mult_left_mono) (simp_all add: abs_minus_commute)
  finally have num: "\<bar>V * u - v * U\<bar> \<le> 2 * \<bar>v\<bar> * u * e" by (simp add: algebra_simps)
  have "V / U - v / u = (V * u - v * U) / (U * u)"
    using u Up by (simp add: field_simps)
  then have "\<bar>V / U - v / u\<bar> = \<bar>V * u - v * U\<bar> / (U * u)"
    using u Up by (simp add: abs_divide abs_mult)
  also have "\<dots> \<le> (2 * \<bar>v\<bar> * u * e) / (U * u)"
    using num u Up by (intro divide_right_mono) simp_all
  also have "\<dots> = 2 * \<bar>v\<bar> * e / U" using u by simp
  also have "\<dots> \<le> 2 * \<bar>v\<bar> * e / (3 / 4 * u)"
    using Ulo u e by (intro divide_left_mono) (simp_all add: mult_pos_pos Up)
  also have "\<dots> \<le> \<bar>v\<bar> / u * (4 * e)"
  proof -
    have "2 * \<bar>v\<bar> * e / (3 / 4 * u) = \<bar>v\<bar> / u * (8 / 3 * e)" using u by (simp add: field_simps)
    also have "\<dots> \<le> \<bar>v\<bar> / u * (4 * e)"
      using u e by (intro mult_left_mono) simp_all
    finally show ?thesis .
  qed
  finally show ?thesis .
qed

lemma eps73: "(2::real) powr (- real (mp_prec + 20)) = 1 / 2 ^ 73"
proof -
  have p73: "(2::real) powr real (73::nat) = 2 ^ 73"
    by (rule powr_realpow) simp
  have "(2::real) powr (- real (73::nat)) = inverse (2 powr real (73::nat))"
    by (rule powr_minus)
  also have "\<dots> = 1 / 2 ^ 73"
    by (simp only: p73 inverse_eq_divide)
  finally show ?thesis by (simp only: mp_prec_def) simp
qed

lemma mpf_ln_re_pos: "0 \<le> x \<Longrightarrow> mpf_ln_re wp x = mpf_round wp (ln (real_of_int x))"
  by (simp add: mpf_ln_re_def)

lemma round_quot_err:
  assumes "0 < u"
  shows "\<bar>mpf_round (mp_prec + 20) v / mpf_round (mp_prec + 20) u - v / u\<bar>
         \<le> \<bar>v\<bar> / u * (1 / 2 ^ 71)"
proof -
  have "\<bar>mpf_round (mp_prec + 20) v / mpf_round (mp_prec + 20) u - v / u\<bar>
         \<le> \<bar>v\<bar> / u * (4 * (1 / 2 ^ 73))"
  proof (rule quot_err)
    show "0 < u" by fact
    show "\<bar>mpf_round (mp_prec + 20) u - u\<bar> \<le> u * (1 / 2 ^ 73)"
      using mpf_round_err [of "mp_prec + 20" u] assms
      by (simp only: eps73)
    show "\<bar>mpf_round (mp_prec + 20) v - v\<bar> \<le> \<bar>v\<bar> * (1 / 2 ^ 73)"
      using mpf_round_err [of "mp_prec + 20" v] by (simp only: eps73)
  qed simp_all
  then show ?thesis by simp
qed

lemma mm_log_re_near:
  assumes base: "2 \<le> base" and x: "1 \<le> x"
    and lo: "2 powr of_int k \<le> log (real_of_int base) (real_of_int x) * (1 - 1 / 2 ^ 71)"
    and hi: "log (real_of_int base) (real_of_int x) * (1 + 1 / 2 ^ 71) < 2 powr of_int (k + 1)"
    and near: "\<bar>log (real_of_int base) (real_of_int x) - of_int j * 2 powr of_int (k - 52)\<bar>
               + log (real_of_int base) (real_of_int x) * (1 / 2 ^ 71) < 2 powr of_int (k - 53)"
  shows "mm_log_re x base = of_int j * 2 powr of_int (k - 52)"
proof -
  define t where "t = log (real_of_int base) (real_of_int x)"
  define Q where "Q = mpf_ln_re (mp_prec + 20) x / mpf_ln_re (mp_prec + 20) base"
  define e :: real where "e = 1 / 2 ^ 71"
  define y :: real where "y = of_int j * 2 powr of_int (k - 52)"
  have lnx: "0 \<le> ln (real_of_int x)" using x by simp
  have lnb: "0 < ln (real_of_int base)" using base by simp
  have t: "t = ln (real_of_int x) / ln (real_of_int base)" by (simp add: t_def log_def)
  have t0: "0 \<le> t" using lnx lnb by (simp add: t)
  have x0: "0 \<le> x" and b0: "0 \<le> base" using x base by simp_all
  have "\<bar>Q - t\<bar> \<le> \<bar>ln (real_of_int x)\<bar> / ln (real_of_int base) * e"
    unfolding Q_def t e_def mpf_ln_re_pos [OF x0] mpf_ln_re_pos [OF b0]
    by (rule round_quot_err [OF lnb])
  then have err: "\<bar>Q - t\<bar> \<le> t * e" using lnx by (simp add: t)
  have lo': "2 powr of_int k \<le> t * (1 - e)" using lo unfolding t_def e_def .
  have hi': "t * (1 + e) < 2 powr of_int (k + 1)" using hi unfolding t_def e_def .
  have near': "\<bar>t - y\<bar> + t * e < 2 powr of_int (k - 53)" using near unfolding t_def e_def y_def .
  have Qlo: "t * (1 - e) \<le> Q" and Qhi: "Q \<le> t * (1 + e)"
    using err by (simp_all add: abs_le_iff algebra_simps)
  have p0: "0 < (2::real) powr of_int k" by simp
  have Q0: "0 < Q" using Qlo lo' p0 by linarith
  have 1: "2 powr of_int k \<le> \<bar>Q\<bar>" using lo' Qlo Q0 by simp
  have 2: "\<bar>Q\<bar> < 2 powr of_int (k + 1)" using hi' Qhi Q0 by simp
  have "\<bar>Q - y\<bar> \<le> \<bar>Q - t\<bar> + \<bar>t - y\<bar>" by simp
  also have "\<dots> < 2 powr of_int (k - 53)" using err near' by simp
  finally have 3: "\<bar>Q - of_int j * 2 powr of_int (k - int mp_prec + 1)\<bar>
                  < 2 powr of_int (k - int mp_prec)"
    by (simp add: mp_prec_def y_def)
  have "mpf_round mp_prec Q = of_int j * 2 powr of_int (k - int mp_prec + 1)"
    by (rule mpf_round_near [OF 1 2 3])
  then show ?thesis by (simp add: mm_log_re_def Q_def mp_prec_def)
qed

lemma mm_log_re_one: "mm_log_re 1 base = 0"
  by (simp add: mm_log_re_def mpf_ln_re_def mpf_round_def)

lemma mpf_round_int:
  assumes lo: "2 powr of_int k \<le> \<bar>x\<bar>" and hi: "\<bar>x\<bar> < 2 powr of_int (k + 1)"
    and x: "x = of_int j * 2 powr of_int (k - int p + 1)"
  shows "mpf_round p x = x"
  using mpf_round_near [OF lo hi, of j p] x by simp

lemma eps53: "(2::real) powr (- real mp_prec) = 1 / 2 ^ 53"
proof -
  have p: "(2::real) powr real (53::nat) = 2 ^ 53"
    by (rule powr_realpow) simp
  have "(2::real) powr (- real (53::nat)) = inverse (2 powr real (53::nat))"
    by (rule powr_minus)
  also have "\<dots> = 1 / 2 ^ 53"
    by (simp only: p inverse_eq_divide)
  finally show ?thesis by (simp only: mp_prec_def)
qed

lemma ln2_ge_half: "1 / 2 \<le> ln (2::real)"
proof -
  have "exp (1 / 2 :: real) \<le> 1 + 1 / 2 + (1 / 2)\<^sup>2" by (rule exp_bound) simp_all
  also have "\<dots> \<le> 2" by (simp add: power2_eq_square)
  finally show ?thesis by (subst ln_ge_iff) simp_all
qed

lemma ln_base_ge_half: "2 \<le> base \<Longrightarrow> 1 / 2 \<le> ln (real_of_int base)"
proof -
  assume "2 \<le> base"
  then have "ln (2::real) \<le> ln (real_of_int base)" by (intro ln_mono) simp_all
  with ln2_ge_half show ?thesis by linarith
qed

lemma ln_one_plus_abs:
  fixes d :: real
  assumes "\<bar>d\<bar> \<le> 1 / 2"
  shows "\<bar>ln (1 + d)\<bar> \<le> 2 * \<bar>d\<bar>"
proof (cases "0 \<le> d")
  case True
  then have "0 \<le> ln (1 + d)" "ln (1 + d) \<le> d"
    by (simp_all add: ln_add_one_self_le_self)
  with True show ?thesis by simp
next
  case False
  define y where "y = - d"
  have y: "0 < y" "y \<le> 1 / 2" using False assms by (simp_all add: y_def)
  have lo: "- y - 2 * y\<^sup>2 \<le> ln (1 - y)"
    using y by (intro ln_one_minus_pos_lower_bound) simp_all
  have "y\<^sup>2 \<le> y * (1 / 2)" unfolding power2_eq_square using y by (intro mult_left_mono) simp_all
  with lo have "- 2 * y \<le> ln (1 - y)" by simp
  moreover have "ln (1 - y) \<le> 0" using y by simp
  ultimately show ?thesis using y by (simp add: y_def)
qed

lemma ln_abs_round:
  fixes X :: real
  assumes X: "1 \<le> X"
  shows "\<bar>ln (mpf_round (mp_prec + 20) X) - ln X\<bar> \<le> 2 / 2 ^ 73"
proof -
  define X' where "X' = mpf_round (mp_prec + 20) X"
  define d where "d = X' / X - 1"
  have err: "\<bar>X' - X\<bar> \<le> X * (1 / 2 ^ 73)"
    using mpf_round_err [of "mp_prec + 20" X] X unfolding X'_def by (simp only: eps73)
  have "d = (X' - X) / X" using X by (simp add: d_def field_simps)
  then have "\<bar>d\<bar> = \<bar>X' - X\<bar> / X" using X by (simp add: abs_divide)
  also have "\<dots> \<le> (X * (1 / 2 ^ 73)) / X" using err X by (intro divide_right_mono) simp_all
  also have "\<dots> = 1 / 2 ^ 73" using X by simp
  finally have d: "\<bar>d\<bar> \<le> 1 / 2 ^ 73" .
  then have d2: "\<bar>d\<bar> \<le> 1 / 2" by simp
  have X'eq: "X' = X * (1 + d)" using X by (simp add: d_def field_simps)
  have "0 < 1 + d" using d2 by (simp add: abs_le_iff)
  then have "ln X' = ln X + ln (1 + d)"
    unfolding X'eq using X by (intro ln_mult_pos) simp_all
  then have "\<bar>ln X' - ln X\<bar> = \<bar>ln (1 + d)\<bar>" by simp
  also have "\<dots> \<le> 2 * \<bar>d\<bar>" by (rule ln_one_plus_abs [OF d2])
  also have "\<dots> \<le> 2 * (1 / 2 ^ 73)" using d by (intro mult_left_mono) simp_all
  finally show ?thesis by (simp add: X'_def)
qed

lemma log_err_arith:
  fixes t e f Q L :: real
  assumes t: "0 \<le> t" and e: "0 \<le> e" "e \<le> f / 4" and f: "f \<le> 1"
    and Q: "\<bar>Q - t\<bar> \<le> (t + e) * e + e" and L: "\<bar>L - Q\<bar> \<le> \<bar>Q\<bar> * f"
  shows "\<bar>L - t\<bar> \<le> 2 * (t + 1) * f"
proof -
  have f0: "0 \<le> f" using e by simp
  have e1: "e \<le> 1" using e f by simp
  have "(t + e) * e \<le> (t + 1) * e" using t e e1 by (intro mult_right_mono) simp_all
  then have "(t + e) * e + e \<le> (t + 2) * e" by (simp add: algebra_simps)
  also have "\<dots> \<le> (t + 2) * (f / 4)" using t e by (intro mult_left_mono) simp_all
  also have "\<dots> \<le> (t + 1) * f / 2"
  proof -
    have "(t + 2) * (f / 4) = ((t + 2) / 4) * f" by simp
    also have "\<dots> \<le> ((t + 1) / 2) * f" using t f0 by (intro mult_right_mono) simp_all
    finally show ?thesis by simp
  qed
  finally have A: "(t + e) * e + e \<le> (t + 1) * f / 2" .
  define A' where "A' = (t + 1) * f / 2"
  have A0: "0 \<le> A'" using t f0 by (simp add: A'_def)
  have QA: "\<bar>Q - t\<bar> \<le> A'" using Q A by (simp add: A'_def)
  then have "\<bar>Q\<bar> \<le> t + A'" using t by (simp add: abs_le_iff)
  then have "\<bar>Q\<bar> * f \<le> (t + A') * f" using f0 by (intro mult_right_mono) simp_all
  also have "\<dots> = t * f + A' * f" by (simp add: algebra_simps)
  also have "\<dots> \<le> t * f + A' * 1" using A0 f by (intro add_left_mono mult_left_mono) simp_all
  finally have LQ: "\<bar>L - Q\<bar> \<le> t * f + A'" using L by simp
  have "\<bar>L - t\<bar> \<le> \<bar>L - Q\<bar> + \<bar>Q - t\<bar>" by simp
  also have "\<dots> \<le> (t * f + A') + A'" using LQ QA by simp
  also have "\<dots> = t * f + (t + 1) * f" by (simp add: A'_def)
  also have "\<dots> \<le> 2 * (t + 1) * f" using f0 by (simp add: algebra_simps)
  finally show ?thesis .
qed

lemma mm_log_re_err:
  assumes base: "2 \<le> base" and x: "x \<noteq> 0"
  shows "\<bar>mm_log_re x base - log (real_of_int base) \<bar>real_of_int x\<bar>\<bar>
         \<le> 2 * (log (real_of_int base) \<bar>real_of_int x\<bar> + 1) * (1 / 2 ^ 53)"
proof -
  define u where "u = ln (real_of_int base)"
  define X where "X = \<bar>real_of_int x\<bar>"
  define t where "t = log (real_of_int base) X"
  define X' where "X' = (if x < 0 then mpf_round (mp_prec + 20) X else real_of_int x)"
  define v where "v = ln X'"
  define Q where "Q = mpf_round (mp_prec + 20) v / mpf_round (mp_prec + 20) u"
  define e :: real where "e = 1 / 2 ^ 71"
  define f :: real where "f = 1 / 2 ^ 53"
  have u: "1 / 2 \<le> u" unfolding u_def by (rule ln_base_ge_half [OF base])
  then have u0: "0 < u" by simp
  have X1: "1 \<le> X" using x by (simp add: X_def)
  have lnX: "0 \<le> ln X" using X1 by simp
  have t: "t = ln X / u" by (simp add: t_def u_def log_def)
  have t0: "0 \<le> t" using lnX u0 by (simp add: t)
  have dv: "\<bar>v - ln X\<bar> \<le> 2 / 2 ^ 73"
  proof (cases "x < 0")
    case True
    then show ?thesis using ln_abs_round [OF X1] by (simp add: v_def X'_def)
  next
    case False
    then have "X' = X" by (simp add: X'_def X_def)
    then show ?thesis by (simp add: v_def)
  qed
  have inv: "1 / u \<le> 2" using u u0 by (simp add: field_simps)
  have d1: "\<bar>v / u - t\<bar> \<le> e"
  proof -
    have "v / u - t = (v - ln X) * (1 / u)" by (simp add: t diff_divide_distrib)
    then have "\<bar>v / u - t\<bar> = \<bar>v - ln X\<bar> * (1 / u)" using u0 by (simp add: abs_mult)
    also have "\<dots> \<le> (2 / 2 ^ 73) * 2"
      using dv inv u0 by (intro mult_mono) simp_all
    also have "\<dots> = e" by (simp add: e_def)
    finally show ?thesis .
  qed
  have d2: "\<bar>v\<bar> / u \<le> t + e"
  proof -
    have "\<bar>v\<bar> / u = \<bar>v / u\<bar>" using u0 by (simp add: abs_divide)
    also have "\<dots> \<le> t + e" using d1 t0 by linarith
    finally show ?thesis .
  qed
  have e0: "0 \<le> e" by (simp add: e_def)
  have "\<bar>Q - v / u\<bar> \<le> \<bar>v\<bar> / u * e"
    unfolding Q_def e_def by (rule round_quot_err [OF u0])
  also have "\<dots> \<le> (t + e) * e" using d2 e0 by (intro mult_right_mono)
  finally have "\<bar>Q - v / u\<bar> \<le> (t + e) * e" .
  then have Qt: "\<bar>Q - t\<bar> \<le> (t + e) * e + e" using d1 by (simp add: abs_le_iff)
  have Lerr: "\<bar>mpf_round mp_prec Q - Q\<bar> \<le> \<bar>Q\<bar> * f"
    using mpf_round_err [of mp_prec Q] unfolding f_def by (simp only: eps53)
  have ef: "e \<le> f / 4" by (simp add: e_def f_def)
  have f1: "f \<le> 1" by (simp add: f_def)
  have "\<bar>mpf_round mp_prec Q - t\<bar> \<le> 2 * (t + 1) * f"
    by (rule log_err_arith [OF t0 e0 ef f1 Qt Lerr])
  moreover have "mm_log_re x base = mpf_round mp_prec Q"
    using base by (simp add: mm_log_re_def mpf_ln_re_def Q_def v_def X'_def X_def u_def)
  ultimately show ?thesis by (simp add: t_def X_def f_def)
qed

text \<open>The two logarithms at which the examples below are taken.\<close>

lemma log10_million: "log 10 (1000000::real) = 6"
proof -
  have "log 10 ((10::real) ^ 6) = real 6" by (rule log_pow_cancel) simp_all
  moreover have "(10::real) ^ 6 = 1000000" by simp
  ultimately show ?thesis by (simp only: of_nat_numeral)
qed

lemma mm_log_re_million: "mm_log_re 1000000 10 = 6"
proof -
  have "mm_log_re 1000000 10 = of_int 6755399441055744 * 2 powr of_int (2 - 52)"
    by (rule mm_log_re_near) (simp_all add: log10_million powr_neg_numeral)
  then show ?thesis by (simp add: powr_neg_numeral)
qed

lemma mpf_round_six: "mpf_round mp_prec 6 = 6"
  by (rule mpf_round_int [of 2 _ 6755399441055744]) (simp_all add: mp_prec_def powr_neg_numeral)

lemma mpf_round_m17: "mpf_round mp_prec (- 17) = - 17"
  by (rule mpf_round_int [of 4 _ "- 4785074604081152"]) (simp_all add: mp_prec_def powr_neg_numeral)

lemma ln10_ge_1: "1 \<le> ln (10::real)"
proof -
  have "exp 1 \<le> (10::real)" using exp_le by simp
  then show ?thesis by (simp add: ln_ge_iff)
qed

lemma log10_big:
  "17 - 2 / 10 ^ 17 \<le> log 10 (99999999999999999::real)"
  "log 10 (99999999999999999::real) < 17"
proof -
  define x :: real where "x = 1 / 10 ^ 17"
  define N :: real where "N = 99999999999999999"
  have x: "0 < x" "x \<le> 1 / 2" by (simp_all add: x_def)
  have eq: "N = 10 ^ 17 * (1 - x)" by (simp add: x_def N_def)
  have "ln ((10::real) ^ 17 * (1 - x)) = ln (10 ^ 17) + ln (1 - x)"
    using x by (intro ln_mult_pos) simp_all
  also have "ln ((10::real) ^ 17) = 17 * ln 10"
    using ln_realpow [of "10::real" 17] by (simp only: of_nat_numeral)
  finally have l: "ln N = 17 * ln 10 + ln (1 - x)"
    by (simp only: eq)
  have lo: "- x - 2 * x\<^sup>2 \<le> ln (1 - x)"
    using x by (intro ln_one_minus_pos_lower_bound) simp_all
  have "x\<^sup>2 \<le> x * (1 / 2)" unfolding power2_eq_square using x by (intro mult_left_mono) simp_all
  with lo have lo2: "- 2 * x \<le> ln (1 - x)" by simp
  have up: "ln (1 - x) < 0" using x by simp
  have u: "1 \<le> ln (10::real)" by (rule ln10_ge_1)
  have t: "log 10 N = 17 + ln (1 - x) / ln 10"
    using u by (simp add: log_def l add_divide_distrib)
  have "ln (1 - x) * ln 10 \<le> ln (1 - x) * 1"
    using up u by (intro mult_left_mono_neg) simp_all
  then have "ln (1 - x) \<le> ln (1 - x) / ln 10"
    using u by (simp add: field_simps)
  with lo2 have "- 2 * x \<le> ln (1 - x) / ln 10" by simp
  then have "17 - 2 * x \<le> log 10 N"
    unfolding t by linarith
  then show "17 - 2 / 10 ^ 17 \<le> log 10 (99999999999999999::real)"
    unfolding N_def x_def by simp
  have "ln (1 - x) / ln 10 < 0" using up u by (simp add: divide_neg_pos)
  then have "log 10 N < 17" unfolding t by linarith
  then show "log 10 (99999999999999999::real) < 17" by (simp only: N_def)
qed

lemma mm_log_re_big: "mm_log_re 99999999999999999 10 = 17"
proof -
  define t :: real where "t = log 10 99999999999999999"
  have t: "17 - 2 / 10 ^ 17 \<le> t" "t < 17"
    using log10_big by (simp_all add: t_def)
  have 1: "2 powr of_int 4 \<le> t * (1 - 1 / 2 ^ 71)"
  proof -
    have "16 \<le> (17 - 2 / 10 ^ 17) * (1 - 1 / 2 ^ 71 :: real)" by simp
    also have "\<dots> \<le> t * (1 - 1 / 2 ^ 71)" using t(1) by (intro mult_right_mono) simp_all
    finally show ?thesis by simp
  qed
  have 2: "t * (1 + 1 / 2 ^ 71) < 2 powr of_int (4 + 1)"
  proof -
    have "t * (1 + 1 / 2 ^ 71) \<le> 17 * (1 + 1 / 2 ^ 71)" using t(2) by (intro mult_right_mono) simp_all
    also have "\<dots> < (32::real)" by simp
    finally show ?thesis by simp
  qed
  have 3: "\<bar>t - of_int 4785074604081152 * 2 powr of_int (4 - 52)\<bar> + t * (1 / 2 ^ 71)
           < 2 powr of_int (4 - 53)"
  proof -
    have "\<bar>t - 17\<bar> \<le> 2 / 10 ^ 17" using t by (simp add: abs_le_iff)
    moreover have "t * (1 / 2 ^ 71) \<le> 17 * (1 / 2 ^ 71)" using t(2) by (intro mult_right_mono) simp_all
    moreover have "2 / 10 ^ 17 + 17 * (1 / 2 ^ 71) < (1 / 2 ^ 49 :: real)" by simp
    ultimately have "\<bar>t - 17\<bar> + t * (1 / 2 ^ 71) < 1 / 2 ^ 49" by linarith
    then show ?thesis by (simp add: powr_neg_numeral)
  qed
  have "mm_log_re 99999999999999999 10 = of_int 4785074604081152 * 2 powr of_int (4 - 52)"
    by (rule mm_log_re_near) (use 1 2 3 in \<open>simp_all add: t_def\<close>)
  then show ?thesis by (simp add: powr_neg_numeral)
qed

subsection \<open>The three cases of \<^verbatim>\<open>precision\<close>\<close>

lemma diff_err_arith:
  fixes t1 t2 n f L1 L2 D :: real
  assumes t1: "0 \<le> t1" "t1 \<le> n" and t2: "0 \<le> t2" "t2 \<le> n"
    and f: "0 \<le> f" "f \<le> 1"
    and L1: "\<bar>L1 - t1\<bar> \<le> 2 * (t1 + 1) * f" and L2: "\<bar>L2 - t2\<bar> \<le> 2 * (t2 + 1) * f"
    and D: "\<bar>D - (L1 - L2)\<bar> \<le> \<bar>L1 - L2\<bar> * f"
  shows "\<bar>D - (t1 - t2)\<bar> \<le> (9 * n + 8) * f"
proof -
  define B where "B = 2 * (n + 1) * f"
  define C where "C = (5 * n + 4) * f"
  have n0: "0 \<le> n" using t1 by simp
  have "2 * (t1 + 1) * f \<le> 2 * (n + 1) * f" using t1 f by (intro mult_right_mono) simp_all
  with L1 have B1: "\<bar>L1 - t1\<bar> \<le> B" by (simp add: B_def)
  have "2 * (t2 + 1) * f \<le> 2 * (n + 1) * f" using t2 f by (intro mult_right_mono) simp_all
  with L2 have B2: "\<bar>L2 - t2\<bar> \<le> B" by (simp add: B_def)
  have S: "\<bar>(L1 - L2) - (t1 - t2)\<bar> \<le> 2 * B" using B1 B2 by linarith
  have "2 * (n + 1) * f \<le> 2 * (n + 1) * 1" using n0 f by (intro mult_left_mono) simp_all
  then have Bn: "B \<le> 2 * n + 2" by (simp add: B_def)
  have "\<bar>t1 - t2\<bar> \<le> n" using t1 t2 by linarith
  with S Bn have "\<bar>L1 - L2\<bar> \<le> 5 * n + 4" by linarith
  then have "\<bar>L1 - L2\<bar> * f \<le> (5 * n + 4) * f" using f by (intro mult_right_mono) simp_all
  with D have "\<bar>D - (L1 - L2)\<bar> \<le> C" by (simp add: C_def)
  with S have "\<bar>D - (t1 - t2)\<bar> \<le> C + 2 * B" by linarith
  also have "\<dots> = (9 * n + 8) * f" by (simp add: B_def C_def algebra_simps)
  finally show ?thesis .
qed

lemma log_abs_bounds:
  assumes base: "2 \<le> base" and x: "x \<noteq> 0" and lt: "\<bar>x\<bar> < base ^ n"
  shows "0 \<le> log (real_of_int base) \<bar>real_of_int x\<bar>"
    and "log (real_of_int base) \<bar>real_of_int x\<bar> \<le> real n"
proof -
  have b: "1 < real_of_int base" using base by simp
  have X: "1 \<le> \<bar>real_of_int x\<bar>" using x by simp
  show "0 \<le> log (real_of_int base) \<bar>real_of_int x\<bar>"
    using b X by (simp add: zero_le_log_cancel_iff)
  have "real_of_int \<bar>x\<bar> < real_of_int (base ^ n)" using lt by (simp only: of_int_less_iff)
  then have "\<bar>real_of_int x\<bar> < real_of_int base ^ n" by simp
  then have "log (real_of_int base) \<bar>real_of_int x\<bar> < log (real_of_int base) (real_of_int base ^ n)"
    using b X by (subst log_less_cancel_iff) simp_all
  also have "\<dots> = real n" using b by (intro log_pow_cancel) simp_all
  finally show "log (real_of_int base) \<bar>real_of_int x\<bar> \<le> real n" by simp
qed

lemma precision_near_exact:
  assumes base: "2 \<le> base" and c: "c \<noteq> 0" and d: "d \<noteq> 0"
    and cn: "\<bar>c\<bar> < base ^ n" and dn: "\<bar>d\<bar> < base ^ n" and n: "n \<le> 100000000000"
  shows "\<bar>- mpf_round mp_prec (mm_log_re c base - mm_log_re d base)
          - (- log (real_of_int base) \<bar>real_of_int c / real_of_int d\<bar>)\<bar> \<le> 1 / 1000"
proof -
  define t1 where "t1 = log (real_of_int base) \<bar>real_of_int c\<bar>"
  define t2 where "t2 = log (real_of_int base) \<bar>real_of_int d\<bar>"
  define f :: real where "f = 1 / 2 ^ 53"
  define D where "D = mpf_round mp_prec (mm_log_re c base - mm_log_re d base)"
  have b: "1 < real_of_int base" using base by simp
  have t1: "0 \<le> t1" "t1 \<le> real n"
    unfolding t1_def using log_abs_bounds [OF base c cn] by simp_all
  have t2: "0 \<le> t2" "t2 \<le> real n"
    unfolding t2_def using log_abs_bounds [OF base d dn] by simp_all
  have f: "0 \<le> f" "f \<le> 1" by (simp_all add: f_def)
  have L1: "\<bar>mm_log_re c base - t1\<bar> \<le> 2 * (t1 + 1) * f"
    unfolding t1_def f_def by (rule mm_log_re_err [OF base c])
  have L2: "\<bar>mm_log_re d base - t2\<bar> \<le> 2 * (t2 + 1) * f"
    unfolding t2_def f_def by (rule mm_log_re_err [OF base d])
  have Derr: "\<bar>D - (mm_log_re c base - mm_log_re d base)\<bar>
              \<le> \<bar>mm_log_re c base - mm_log_re d base\<bar> * f"
    unfolding D_def f_def
    using mpf_round_err [of mp_prec "mm_log_re c base - mm_log_re d base"]
    by (simp only: eps53)
  have "\<bar>D - (t1 - t2)\<bar> \<le> (9 * real n + 8) * f"
    by (rule diff_err_arith [OF t1 t2 f L1 L2 Derr])
  also have "\<dots> \<le> (9 * 100000000000 + 8) * f"
    using n f by (intro mult_right_mono) simp_all
  also have "\<dots> \<le> 1 / 1000" by (simp add: f_def)
  finally have 1: "\<bar>D - (t1 - t2)\<bar> \<le> 1 / 1000" .
  have eq: "log (real_of_int base) \<bar>real_of_int c / real_of_int d\<bar> = t1 - t2"
    using b c d by (simp add: t1_def t2_def abs_divide log_divide)
  show ?thesis unfolding eq using 1 unfolding D_def by linarith
qed

lemma log10_3: "1 / 3 \<le> log 10 (3::real)" "log 10 (3::real) < 1 / 2"
proof -
  have "log 10 ((3::real) ^ 3) = real 3 * log 10 3" by (rule log_nat_power) simp
  moreover have "log 10 (10::real) \<le> log 10 (3 ^ 3)" by (subst log_le_cancel_iff) simp_all
  ultimately show "1 / 3 \<le> log 10 (3::real)" by simp
  have "log 10 ((3::real) ^ 2) = real 2 * log 10 3" by (rule log_nat_power) simp
  moreover have "log 10 ((3::real) ^ 2) < log 10 10" by (subst log_less_cancel_iff) simp_all
  ultimately show "log 10 (3::real) < 1 / 2" by simp
qed

text \<open>
  Claim C2, as stated, fails: the two logarithms are mpmath numbers of 53 bits, and their
  rounding can carry the result over an integer. The matrix \<open>[[0, 1], [1, 10\<^sup>1\<^sup>7 - 1]]\<close> is
  the depth-1 step matrix of \<open>a(n) = (10\<^sup>1\<^sup>7 - 1) n\<close>, \<open>b = 1\<close>; its cross term is 1 and its
  denominator product \<open>10\<^sup>1\<^sup>7 - 1\<close>. The logarithm of \<open>10\<^sup>1\<^sup>7 - 1\<close> to the base 10 rounds to
  17, so \<^verbatim>\<open>precision\<close> returns 17, and \<open>floor (- log\<^sub>1\<^sub>0 |1 / (10\<^sup>1\<^sup>7 - 1)|)\<close> is 16.
\<close>

theorem precision_rounding_counterexample:
  "step (PCF_init (rf_poly [0, 99999999999999999]) (rf_poly [1]) None) 1 NoneIC
     = Inr ((0, 1), (1, 99999999999999999))
   \<and> (2::int) \<le> 10
   \<and> (1::int) * 99999999999999999 \<noteq> 0
   \<and> (1::int) * 1 - 99999999999999999 * 0 \<noteq> 0
   \<and> precision ((0, 1), (1, 99999999999999999)) 10 = 17
   \<and> \<lfloor>- log 10 \<bar>real_of_int (1 * 1 - 99999999999999999 * 0)
                   / real_of_int (1 * 99999999999999999)\<bar>\<rfloor> = (16::int)
   \<and> precision ((0, 1), (1, 99999999999999999)) 10
     \<noteq> \<lfloor>- log 10 \<bar>real_of_int (1 * 1 - 99999999999999999 * 0)
                     / real_of_int (1 * 99999999999999999)\<bar>\<rfloor>"
proof -
  have s: "step (PCF_init (rf_poly [0, 99999999999999999]) (rf_poly [1]) None) 1 NoneIC
             = Inr ((0, 1), (1, 99999999999999999))"
    by code_simp
  have p: "precision ((0, 1), (1, 99999999999999999)) 10 = 17"
    by (simp add: precision_def mm_log_re_big mm_log_re_one mpf_round_m17)
  have e: "\<lfloor>- log 10 \<bar>real_of_int (1 * 1 - 99999999999999999 * 0)
                       / real_of_int (1 * 99999999999999999)\<bar>\<rfloor> = (16::int)"
  proof -
    have "log 10 (1 / 99999999999999999 :: real) = - log 10 99999999999999999"
      by (simp add: log_divide)
    moreover have "\<lfloor>log 10 (99999999999999999::real)\<rfloor> = 16"
      using floor_log_eq_powr_iff [of "99999999999999999::real" 10 16] by simp
    ultimately show ?thesis by simp
  qed
  show ?thesis unfolding p e using s by simp
qed

text \<open>
  Claim C2, amended. For a step matrix \<open>[[p1, p2], [q1, q2]]\<close> of integers and a base of at
  least 2, \<^verbatim>\<open>precision\<close> returns 0 when \<open>q1 * q2 = 0\<close>, the sentinel 100 when the cross term
  \<open>p2 * q1 - q2 * p1\<close> is 0 and \<open>q1 * q2\<close> is not, and otherwise the floor of the negated
  difference of the logarithms of the cross term and of \<open>q1 * q2\<close> as mpmath computes them
  in 53 bits. When the two are below \<open>base\<^sup>n\<close> in absolute value for an \<open>n \<le> 10\<^sup>1\<^sup>1\<close>, the
  number floored is within \<open>1/1000\<close> of \<open>- log\<^bsub>base\<^esub> |cross / (q1 * q2)|\<close>, so that the result
  lies between the floors of that number minus and plus \<open>1/1000\<close>.
\<close>

theorem precision_cases:
  assumes "2 \<le> base"
  shows "(q1 * q2 = 0 \<longrightarrow> precision ((p1, p2), (q1, q2)) base = 0)
       \<and> (q1 * q2 \<noteq> 0 \<and> p2 * q1 - q2 * p1 = 0 \<longrightarrow> precision ((p1, p2), (q1, q2)) base = 100)
       \<and> (q1 * q2 \<noteq> 0 \<and> p2 * q1 - q2 * p1 \<noteq> 0 \<longrightarrow>
            precision ((p1, p2), (q1, q2)) base
              = \<lfloor>- mpf_round mp_prec (mm_log_re (p2 * q1 - q2 * p1) base
                                       - mm_log_re (q1 * q2) base)\<rfloor>)
       \<and> (q1 * q2 \<noteq> 0 \<and> p2 * q1 - q2 * p1 \<noteq> 0
            \<and> \<bar>p2 * q1 - q2 * p1\<bar> < base ^ n \<and> \<bar>q1 * q2\<bar> < base ^ n \<and> n \<le> 100000000000 \<longrightarrow>
            \<lfloor>- log (real_of_int base)
                   \<bar>real_of_int (p2 * q1 - q2 * p1) / real_of_int (q1 * q2)\<bar> - 1 / 1000\<rfloor>
              \<le> precision ((p1, p2), (q1, q2)) base
          \<and> precision ((p1, p2), (q1, q2)) base
              \<le> \<lfloor>- log (real_of_int base)
                     \<bar>real_of_int (p2 * q1 - q2 * p1) / real_of_int (q1 * q2)\<bar> + 1 / 1000\<rfloor>)"
proof (intro conjI impI)
  show "precision ((p1, p2), (q1, q2)) base = 0" if "q1 * q2 = 0"
    using that by (simp add: precision_def)
  show "precision ((p1, p2), (q1, q2)) base = 100" if "q1 * q2 \<noteq> 0 \<and> p2 * q1 - q2 * p1 = 0"
    using that by (simp add: precision_def)
  show fl: "precision ((p1, p2), (q1, q2)) base
          = \<lfloor>- mpf_round mp_prec (mm_log_re (p2 * q1 - q2 * p1) base - mm_log_re (q1 * q2) base)\<rfloor>"
    if "q1 * q2 \<noteq> 0 \<and> p2 * q1 - q2 * p1 \<noteq> 0"
    using that by (simp add: precision_def Let_def)
  assume h: "q1 * q2 \<noteq> 0 \<and> p2 * q1 - q2 * p1 \<noteq> 0
            \<and> \<bar>p2 * q1 - q2 * p1\<bar> < base ^ n \<and> \<bar>q1 * q2\<bar> < base ^ n \<and> n \<le> 100000000000"
  define E where "E = - log (real_of_int base)
                         \<bar>real_of_int (p2 * q1 - q2 * p1) / real_of_int (q1 * q2)\<bar>"
  define D where "D = - mpf_round mp_prec (mm_log_re (p2 * q1 - q2 * p1) base
                                          - mm_log_re (q1 * q2) base)"
  have "\<bar>D - E\<bar> \<le> 1 / 1000"
    unfolding D_def E_def using h by (intro precision_near_exact [OF assms, of _ _ n]) simp_all
  then have "E - 1 / 1000 \<le> D" "D \<le> E + 1 / 1000" by linarith+
  then have "\<lfloor>E - 1 / 1000\<rfloor> \<le> \<lfloor>D\<rfloor>" "\<lfloor>D\<rfloor> \<le> \<lfloor>E + 1 / 1000\<rfloor>"
    by (simp_all add: floor_mono)
  moreover have "precision ((p1, p2), (q1, q2)) base = \<lfloor>D\<rfloor>"
    unfolding D_def using h by (intro fl) simp
  ultimately show "\<lfloor>- log (real_of_int base)
                   \<bar>real_of_int (p2 * q1 - q2 * p1) / real_of_int (q1 * q2)\<bar> - 1 / 1000\<rfloor>
              \<le> precision ((p1, p2), (q1, q2)) base"
    and "precision ((p1, p2), (q1, q2)) base
              \<le> \<lfloor>- log (real_of_int base)
                     \<bar>real_of_int (p2 * q1 - q2 * p1) / real_of_int (q1 * q2)\<bar> + 1 / 1000\<rfloor>"
    by (simp_all add: E_def)
qed

text \<open>
  At \<open>[[1, 4], [1, 3]]\<close> the number is \<open>log\<^sub>1\<^sub>0 3\<close>, between \<open>1/3\<close> and \<open>1/2\<close>, and the result is
  0 whatever the rounding.
\<close>

theorem precision_cases_witness:
  "(2::int) \<le> 10
   \<and> precision ((1, 4), (1, 3)) 10 = 0
   \<and> precision ((1, 4), (0, 3)) 10 = 0
   \<and> precision ((2, 6), (1, 3)) 10 = 100"
proof -
  have b: "(2::int) \<le> 10" by simp
  have E: "- log 10 \<bar>real_of_int (4 * 1 - 3 * 1) / real_of_int (1 * 3)\<bar> = log 10 3"
    by (simp add: log_divide)
  have h: "(1::int) * 3 \<noteq> 0 \<and> (4::int) * 1 - 3 * 1 \<noteq> 0
           \<and> \<bar>(4::int) * 1 - 3 * 1\<bar> < 10 ^ 1 \<and> \<bar>(1::int) * 3\<bar> < 10 ^ 1
           \<and> (1::nat) \<le> 100000000000" by simp
  have "\<lfloor>log 10 (3::real) - 1 / 1000\<rfloor> \<le> precision ((1, 4), (1, 3)) 10
        \<and> precision ((1, 4), (1, 3)) 10 \<le> \<lfloor>log 10 (3::real) + 1 / 1000\<rfloor>"
    using precision_cases [OF b, where ?q1.0 = 1 and ?q2.0 = 3 and ?p1.0 = 1 and ?p2.0 = 4
        and n = 1, THEN conjunct2, THEN conjunct2, THEN conjunct2, rule_format, OF h]
    unfolding E of_int_numeral .
  moreover have "\<lfloor>log 10 (3::real) - 1 / 1000\<rfloor> = 0" using log10_3 by (simp add: floor_eq_iff)
  moreover have "\<lfloor>log 10 (3::real) + 1 / 1000\<rfloor> = 0" using log10_3 by (simp add: floor_eq_iff)
  ultimately have 1: "precision ((1, 4), (1, 3)) 10 = 0" by simp
  have 2: "precision ((1, 4), (0, 3)) 10 = 0"
    using precision_cases [OF b, where ?q1.0 = 0 and ?q2.0 = 3 and ?p1.0 = 1 and ?p2.0 = 4] by simp
  have 3: "precision ((2, 6), (1, 3)) 10 = 100"
    using precision_cases [OF b, where ?q1.0 = 1 and ?q2.0 = 3 and ?p1.0 = 2 and ?p2.0 = 6] by simp
  from b 1 2 3 show ?thesis by simp
qed

subsection \<open>Evaluation of the polynomial operations\<close>

lemma peval_padd: "peval (padd p q) x = peval p x + peval q x"
  by (induction p q rule: padd.induct) (simp_all add: algebra_simps)

lemma peval_psmul: "peval (psmul k p) x = k * peval p x"
  by (induction p) (simp_all add: psmul_def algebra_simps)

lemma peval_psub: "peval (psub p q) x = peval p x - peval q x"
  by (simp add: psub_def peval_padd peval_psmul)

lemma peval_pmul: "peval (pmul p q) x = peval p x * peval q x"
  by (induction p) (simp_all add: peval_padd peval_psmul algebra_simps)

lemma peval_append: "peval (p @ q) x = peval p x + x ^ length p * peval q x"
  by (induction p) (simp_all add: algebra_simps)

lemma pnorm_snoc: "pnorm (p @ [c]) = (if c = 0 then pnorm p else p @ [c])"
  by (simp add: pnorm_def)

lemma peval_pnorm: "peval (pnorm p) x = peval p x"
proof (induction p rule: rev_induct)
  case Nil
  then show ?case by (simp add: pnorm_def)
next
  case (snoc c p)
  then show ?case by (simp add: pnorm_snoc peval_append)
qed

lemma peval_pcompose: "peval (pcompose p q) x = peval p (peval q x)"
  by (induction p) (simp_all add: peval_padd peval_pmul)

lemma rf_int_at_subs_shift: "rf_int_at (rf_subs r [d, 1]) k = rf_int_at r (k + d)"
  by (simp add: rf_int_at_def rf_subs_def peval_pnorm peval_pcompose add.commute)

subsection \<open>Resuming \<^verbatim>\<open>step\<close> from a checkpoint\<close>






text \<open>
  The constructor on polynomials: the denominators are 1, so is their LCM, and the
  compute polynomials are \<open>a\<close> and \<open>b\<close> themselves; \<^verbatim>\<open>subs\<close> with \<open>n + d\<close> composes them with
  the shift.
\<close>

lemma pmul_one: "pmul p [1] = p"
  by (induction p) (simp_all add: psmul_def)




lemma monomial_one: "pmul (monomial c k) [1] = monomial c k"
  by (rule pmul_one)


















subsection \<open>A negative precision\<close>

text \<open>
  Claim C10. The PCF with \<open>a = 1\<close> and \<open>b = 10\<^sup>6\<close> has the depth-1 step matrix
  \<open>[[1, 1000001], [1, 1]]\<close>, whose denominator product and cross term are nonzero;
  \<^verbatim>\<open>precision\<close> returns \<open>-6\<close> for it, and \<^verbatim>\<open>limit\<close> without a \<^verbatim>\<open>prec\<close> argument sets the
  working digits of its mpmath context to this \<open>-6\<close> and returns it as the precision.
\<close>

theorem precision_negative_in_limit:
  "step (PCF_init (rf_poly [1]) (rf_poly [1000000]) None) 1 NoneIC = Inr ((1, 1000001), (1, 1))
   \<and> (1::int) * 1 \<noteq> 0 \<and> (1000001::int) * 1 - 1 * 1 \<noteq> 0
   \<and> precision ((1, 1000001), (1, 1)) 10 = - 6
   \<and> limit (PCF_init (rf_poly [1]) (rf_poly [1000000]) None) 1 NoneIC None False
       = Inr (MpfQuotient (- 6) 1000001 1, - 6)"
proof -
  let ?P = "PCF_init (rf_poly [1]) (rf_poly [1000000]) None"
  have s: "step ?P 1 NoneIC = Inr ((1, 1000001), (1, 1))" by code_simp
  have i: "inflation_factor ?P = (1, 1)" by code_simp
  have p: "precision ((1, 1000001), (1, 1)) 10 = - 6"
    by (simp add: precision_def mm_log_re_million mm_log_re_one mpf_round_six)
  show ?thesis by (simp add: s p limit_def i)
qed

subsection \<open>The retry loop of \<^verbatim>\<open>PCFDynamics.delta\<close>\<close>

lemma delta_loop_not_inf:
  "result \<noteq> Some PlusInf \<Longrightarrow>
   delta_loop attempt shift_step max_shift shift result = Some (Inr result, shift)"
  by (subst delta_loop.simps) simp

lemma delta_loop_exceeded:
  "max_shift < shift \<Longrightarrow>
   delta_loop attempt shift_step max_shift shift result = Some (Inr result, shift)"
  by (subst delta_loop.simps) simp

lemma delta_loop_retry:
  "shift \<le> max_shift \<Longrightarrow> attempt shift = Inr r \<Longrightarrow>
   delta_loop attempt shift_step max_shift shift (Some PlusInf)
     = delta_loop attempt shift_step max_shift (shift + shift_step) r"
  by (subst delta_loop.simps) simp

lemma delta_loop_raise:
  "shift \<le> max_shift \<Longrightarrow> attempt shift = Inl e \<Longrightarrow>
   delta_loop attempt shift_step max_shift shift (Some PlusInf) = Some (Inl e, shift)"
  by (subst delta_loop.simps) simp

lemma delta_loop_first:
  assumes "s + int k * shift_step \<le> max_shift" and "0 < shift_step"
    and "attempt (s + int k * shift_step) \<noteq> Inr (Some PlusInf)"
    and "\<forall>j<k. attempt (s + int j * shift_step) = Inr (Some PlusInf)"
  shows "map_option fst (delta_loop attempt shift_step max_shift s (Some PlusInf))
           = Some (attempt (s + int k * shift_step))"
  using assms
proof (induction k arbitrary: s)
  case 0
  then have le: "s \<le> max_shift" and ne: "attempt s \<noteq> Inr (Some PlusInf)" by simp_all
  show ?case
  proof (cases "attempt s")
    case (Inl e)
    with le show ?thesis by (simp add: delta_loop_raise)
  next
    case (Inr r)
    with ne have "r \<noteq> Some PlusInf" by simp
    with le Inr show ?thesis by (simp add: delta_loop_retry delta_loop_not_inf)
  qed
next
  case (Suc k)
  from Suc.prems(4) have first: "attempt s = Inr (Some PlusInf)" by force
  have le: "s \<le> max_shift"
  proof -
    have "0 \<le> int (Suc k) * shift_step" using Suc.prems(2) by simp
    with Suc.prems(1) show ?thesis by linarith
  qed
  have eq: "s + shift_step + int k * shift_step = s + int (Suc k) * shift_step"
    by (simp add: algebra_simps)
  have rest: "\<forall>j<k. attempt (s + shift_step + int j * shift_step) = Inr (Some PlusInf)"
  proof (intro allI impI)
    fix j assume "j < k"
    then have "Suc j < Suc k" by simp
    from Suc.prems(4) [rule_format, OF this]
    show "attempt (s + shift_step + int j * shift_step) = Inr (Some PlusInf)"
      by (simp add: algebra_simps)
  qed
  have "map_option fst (delta_loop attempt shift_step max_shift (s + shift_step) (Some PlusInf))
          = Some (attempt (s + shift_step + int k * shift_step))"
    using Suc.prems(1,2,3) rest by (intro Suc.IH) (simp_all add: eq)
  then show ?case
    using le first by (simp add: delta_loop_retry eq)
qed

text \<open>With a positive step the loop returns, and the shift it ends with is bounded.\<close>

lemma delta_loop_terminates:
  assumes "0 < shift_step"
  shows "\<exists>r s'. delta_loop attempt shift_step max_shift s result = Some (r, s')
                \<and> s \<le> s' \<and> s' \<le> max s (max_shift + shift_step)"
proof (induction "nat (max_shift + 1 - s)" arbitrary: s result rule: less_induct)
  case less
  show ?case
  proof (cases "result = Some PlusInf \<and> s \<le> max_shift")
    case False
    then have "delta_loop attempt shift_step max_shift s result = Some (Inr result, s)"
      by (auto simp: delta_loop_not_inf delta_loop_exceeded)
    then show ?thesis by simp
  next
    case True
    show ?thesis
    proof (cases "attempt s")
      case (Inl e)
      with True show ?thesis by (simp add: delta_loop_raise)
    next
      case (Inr r)
      have "nat (max_shift + 1 - (s + shift_step)) < nat (max_shift + 1 - s)"
        using True assms by linarith
      from less [OF this, of r] obtain r' s' where
        "delta_loop attempt shift_step max_shift (s + shift_step) r = Some (r', s')"
        "s + shift_step \<le> s'" "s' \<le> max (s + shift_step) (max_shift + shift_step)"
        by blast
      with True Inr assms show ?thesis
        by (auto simp: delta_loop_retry)
    qed
  qed
qed

lemma delta_loop_all_inf:
  assumes "0 < shift_step"
    and "\<forall>k. s + int k * shift_step \<le> max_shift \<longrightarrow>
              attempt (s + int k * shift_step) = Inr (Some PlusInf)"
  shows "map_option fst (delta_loop attempt shift_step max_shift s (Some PlusInf))
           = Some (Inr (Some PlusInf))"
  using assms(2)
proof (induction "nat (max_shift + 1 - s)" arbitrary: s rule: less_induct)
  case less
  show ?case
  proof (cases "s \<le> max_shift")
    case False
    then show ?thesis by (simp add: delta_loop_exceeded)
  next
    case True
    from less.prems [rule_format, of 0] True have first: "attempt s = Inr (Some PlusInf)" by simp
    have dec: "nat (max_shift + 1 - (s + shift_step)) < nat (max_shift + 1 - s)"
      using True assms(1) by linarith
    have "\<forall>k. s + shift_step + int k * shift_step \<le> max_shift \<longrightarrow>
              attempt (s + shift_step + int k * shift_step) = Inr (Some PlusInf)"
    proof (intro allI impI)
      fix k assume "s + shift_step + int k * shift_step \<le> max_shift"
      then have "s + int (Suc k) * shift_step \<le> max_shift" by (simp add: algebra_simps)
      from less.prems [rule_format, OF this]
      show "attempt (s + shift_step + int k * shift_step) = Inr (Some PlusInf)"
        by (simp add: algebra_simps)
    qed
    from less.hyps [OF dec this] True first show ?thesis
      by (simp add: delta_loop_retry)
  qed
qed

lemma ex_b0: "peval (fst (b (PCF_init (rf_poly [1]) (rf_poly [- 1, 1]) None))) 1 = 0"
  by code_simp
lemma ex_s0: "peval (fst (b (subs (PCF_init (rf_poly [1]) (rf_poly [- 1, 1]) None) [0, 1]))) 1 = 0"
  by code_simp
lemma ex_s5: "peval (fst (b (subs (PCF_init (rf_poly [1]) (rf_poly [- 1, 1]) None) [5, 1]))) 1 = 5"
  by code_simp

text \<open>
  Claim C5 fails on the code, at a concrete input. The docstring of \<^verbatim>\<open>delta\<close> has
  \<^verbatim>\<open>shift_step\<close> as the step to use in shifting the depth, and the retry loops of
  \<^verbatim>\<open>compute_dynamics\<close> add their shift to the depth. The loop of \<^verbatim>\<open>delta\<close> keeps the depth
  at \<open>depth + CIDS\<close> and shifts the index variable of the PCF by the accumulated shift
  instead. For \<open>a = 1\<close>, \<open>b = n - 1\<close> and a measure that is infinite exactly when
  \<open>b(1) = 0\<close>, the code returns the finite value of the first retry (the shifted PCF has
  \<open>b = n + 4\<close>), while retrying the same PCF at \<open>depth + shift\<close> stays infinite and returns
  \<open>+\<infinity>\<close>.
\<close>

theorem delta_retry_depth_counterexample:
  "delta example_pcf_subs example_pcf_delta (PCF_init (rf_poly [1]) (rf_poly [- 1, 1]) None)
        1 () 5 10 = Some (Inr (Some (Finite 0)))
   \<and> delta_at_shifted_depth example_pcf_delta (PCF_init (rf_poly [1]) (rf_poly [- 1, 1]) None)
        1 () 5 10 = Some (Inr (Some PlusInf))
   \<and> delta example_pcf_subs example_pcf_delta (PCF_init (rf_poly [1]) (rf_poly [- 1, 1]) None)
        1 () 5 10
     \<noteq> delta_at_shifted_depth example_pcf_delta (PCF_init (rf_poly [1]) (rf_poly [- 1, 1]) None)
        1 () 5 10"
proof -
  let ?P = "PCF_init (rf_poly [1]) (rf_poly [- 1, 1]) None"
  let ?att = "\<lambda>shift. example_pcf_delta (example_pcf_subs ?P shift) (1 + CIDS) ()"
  have "map_option fst (delta_loop ?att 5 10 0 (Some PlusInf)) = Some (?att (0 + int 1 * 5))"
    by (rule delta_loop_first)
       (simp_all add: example_pcf_delta_def example_pcf_subs_def ex_s0 ex_s5)
  then have code: "delta example_pcf_subs example_pcf_delta ?P 1 () 5 10 = Some (Inr (Some (Finite 0)))"
    by (simp add: delta_def example_pcf_delta_def example_pcf_subs_def ex_s5)
  have "map_option fst (delta_loop (\<lambda>shift. example_pcf_delta ?P (1 + shift + CIDS) ()) 5 10 0
                          (Some PlusInf)) = Some (Inr (Some PlusInf))"
    by (rule delta_loop_all_inf) (simp_all add: example_pcf_delta_def ex_b0)
  then have spec: "delta_at_shifted_depth example_pcf_delta ?P 1 () 5 10 = Some (Inr (Some PlusInf))"
    by (simp add: delta_at_shifted_depth_def)
  from code spec show ?thesis by simp
qed

text \<open>
  Claim C5 fails on the code: no retry is made at an increased depth. For \<open>depth \<ge> 1\<close> and
  \<open>shift_step \<ge> 1\<close>, and whatever the library's \<^verbatim>\<open>subs\<close> and \<^verbatim>\<open>delta\<close> do, attempt \<open>k\<close> of
  \<^verbatim>\<open>delta\<close> is the measure of the PCF with its index variable shifted by
  \<open>k * shift_step\<close>, at the unchanged depth \<open>depth + CIDS\<close>. Attempts are made while
  \<open>k * shift_step \<le> max_shift\<close>: when each of them is \<open>+\<infinity>\<close>, \<^verbatim>\<open>delta\<close> returns \<open>+\<infinity>\<close>;
  otherwise it returns the first attempt that is not \<open>+\<infinity>\<close> (a value, or the exception
  it raised).
\<close>

theorem delta_retries_on_shifted_index:
  assumes "1 \<le> depth" and "1 \<le> shift_step"
  shows "((\<forall>k. int k * shift_step \<le> max_shift \<longrightarrow>
             pcf_delta (pcf_subs pcf (int k * shift_step)) (depth + CIDS) limit_arg
               = Inr (Some PlusInf))
          \<longrightarrow> delta pcf_subs pcf_delta pcf depth limit_arg shift_step max_shift
               = Some (Inr (Some PlusInf)))
       \<and> (\<forall>k. int k * shift_step \<le> max_shift
             \<and> pcf_delta (pcf_subs pcf (int k * shift_step)) (depth + CIDS) limit_arg
                 \<noteq> Inr (Some PlusInf)
             \<and> (\<forall>j<k. pcf_delta (pcf_subs pcf (int j * shift_step)) (depth + CIDS) limit_arg
                         = Inr (Some PlusInf))
          \<longrightarrow> delta pcf_subs pcf_delta pcf depth limit_arg shift_step max_shift
               = Some (pcf_delta (pcf_subs pcf (int k * shift_step)) (depth + CIDS) limit_arg))"
proof -
  let ?att = "\<lambda>shift. pcf_delta (pcf_subs pcf shift) (depth + CIDS) limit_arg"
  have pos: "0 < shift_step" using assms(2) by simp
  have d: "delta pcf_subs pcf_delta pcf depth limit_arg shift_step max_shift
           = map_option fst (delta_loop ?att shift_step max_shift 0 (Some PlusInf))"
    using assms(1) by (simp add: delta_def)
  have A: "delta pcf_subs pcf_delta pcf depth limit_arg shift_step max_shift
             = Some (Inr (Some PlusInf))"
    if "\<forall>k. int k * shift_step \<le> max_shift \<longrightarrow> ?att (int k * shift_step) = Inr (Some PlusInf)"
    using delta_loop_all_inf [OF pos, of 0 max_shift ?att] that by (simp add: d)
  have B: "delta pcf_subs pcf_delta pcf depth limit_arg shift_step max_shift
             = Some (?att (int k * shift_step))"
    if "int k * shift_step \<le> max_shift" "?att (int k * shift_step) \<noteq> Inr (Some PlusInf)"
       "\<forall>j<k. ?att (int j * shift_step) = Inr (Some PlusInf)" for k
    using delta_loop_first [of 0 k shift_step max_shift ?att] that pos by (simp add: d)
  from A B show ?thesis by blast
qed

theorem delta_retries_on_shifted_index_witness:
  "(1::int) \<le> 1 \<and> (1::int) \<le> 5
   \<and> delta example_pcf_subs example_pcf_delta (PCF_init (rf_poly [1]) (rf_poly [- 1, 1]) None)
        1 () 5 10 = Some (Inr (Some (Finite 0)))
   \<and> delta example_pcf_subs always_inf_delta (PCF_init (rf_poly [1]) (rf_poly [- 1, 1]) None)
        1 () 5 10 = Some (Inr (Some PlusInf))"
proof -
  let ?P = "PCF_init (rf_poly [1]) (rf_poly [- 1, 1]) None"
  have h1: "(1::int) \<le> 1" and h2: "(1::int) \<le> 5" by simp_all
  note T = delta_retries_on_shifted_index [OF h1 h2]
  have "delta example_pcf_subs example_pcf_delta ?P 1 () 5 10
        = Some (example_pcf_delta (example_pcf_subs ?P (int 1 * 5)) (1 + CIDS) ())"
    by (rule T [THEN conjunct2, rule_format])
       (simp add: example_pcf_delta_def example_pcf_subs_def ex_s0 ex_s5)
  moreover have "delta example_pcf_subs always_inf_delta ?P 1 () 5 10 = Some (Inr (Some PlusInf))"
    by (rule T [THEN conjunct1, rule_format]) (simp add: always_inf_delta_def)
  ultimately show ?thesis
    by (simp add: example_pcf_delta_def example_pcf_subs_def ex_s5)
qed

subsection \<open>Termination of the retry loops\<close>

lemma delta_loop_diverges:
  assumes "0 \<le> max_shift"
  shows "delta_loop (\<lambda>shift. Inr (Some PlusInf)) 0 max_shift 0 (Some PlusInf) = None"
proof (rule ccontr)
  assume "delta_loop (\<lambda>shift. Inr (Some PlusInf)) 0 max_shift 0 (Some PlusInf) \<noteq> None"
  then obtain y where y: "delta_loop (\<lambda>shift. Inr (Some PlusInf)) 0 max_shift 0 (Some PlusInf) = Some y"
    by blast
  have "\<not> (shift_step = 0 \<and> shift \<le> ms \<and> result = Some PlusInf
            \<and> attempt = (\<lambda>shift. Inr (Some PlusInf)))"
    if "delta_loop attempt shift_step ms shift result = Some y'"
    for attempt shift_step ms shift result y'
  proof (rule delta_loop.raw_induct
      [where P = "\<lambda>attempt shift_step ms shift result y'.
                    \<not> (shift_step = 0 \<and> shift \<le> ms \<and> result = Some PlusInf
                       \<and> attempt = (\<lambda>shift. Inr (Some PlusInf)))", OF _ that])
    fix f :: "(int \<Rightarrow> py_error + mpf option) \<Rightarrow> int \<Rightarrow> int \<Rightarrow> int \<Rightarrow> mpf option
               \<Rightarrow> ((py_error + mpf option) \<times> int) option"
    fix attempt shift_step ms shift result z
    assume IH: "\<And>attempt shift_step ms shift result z. f attempt shift_step ms shift result = Some z \<Longrightarrow>
                  \<not> (shift_step = 0 \<and> shift \<le> ms \<and> result = Some PlusInf
                     \<and> attempt = (\<lambda>shift. Inr (Some PlusInf)))"
      and eq: "(if result = Some PlusInf
                then if ms < shift then Some (Inr result, shift)
                     else case attempt shift of Inl e \<Rightarrow> Some (Inl e, shift)
                          | Inr r \<Rightarrow> f attempt shift_step ms (shift + shift_step) r
                else Some (Inr result, shift)) = Some z"
    show "\<not> (shift_step = 0 \<and> shift \<le> ms \<and> result = Some PlusInf
             \<and> attempt = (\<lambda>shift. Inr (Some PlusInf)))"
    proof
      assume A: "shift_step = 0 \<and> shift \<le> ms \<and> result = Some PlusInf
                 \<and> attempt = (\<lambda>shift. Inr (Some PlusInf))"
      with eq have "f attempt shift_step ms shift (Some PlusInf) = Some z" by simp
      from IH [OF this] A show False by simp
    qed
  qed
  from this [OF y] assms show False by simp
qed

lemma delta_retry_loop_counter:
  "i \<le> snd (delta_retry_loop delta_try max_iters depth_shift depth delta_v i success)
   \<and> snd (delta_retry_loop delta_try max_iters depth_shift depth delta_v i success) \<le> max i max_iters"
proof (induction delta_try max_iters depth_shift depth delta_v i success
       rule: delta_retry_loop.induct)
  case (1 delta_try max_iters depth_shift depth delta_v i success)
  show ?case
  proof (cases "(delta_v = PlusInf \<or> \<not> success) \<and> i < max_iters")
    case False
    then have "delta_retry_loop delta_try max_iters depth_shift depth delta_v i success = (delta_v, i)"
      by (subst delta_retry_loop.simps) auto
    then show ?thesis by simp
  next
    case True
    show ?thesis
    proof (cases "delta_try depth")
      case (Inl e)
      have "delta_retry_loop delta_try max_iters depth_shift depth delta_v i success
            = delta_retry_loop delta_try max_iters depth_shift (depth + depth_shift) delta_v (i + 1) False"
        using True Inl by (subst delta_retry_loop.simps) auto
      with "1.IH"(1) [OF True Inl] True show ?thesis by (simp add: max_def)
    next
      case (Inr v)
      have "delta_retry_loop delta_try max_iters depth_shift depth delta_v i success
            = delta_retry_loop delta_try max_iters depth_shift (depth + depth_shift) v (i + 1)
                (if v \<noteq> PlusInf then True else success)"
        using True Inr by (subst delta_retry_loop.simps) auto
      with "1.IH"(2) [OF True Inr] True show ?thesis by (simp add: max_def)
    qed
  qed
qed

lemma convrate_retry_loop_counter:
  "i \<le> snd (convrate_retry_loop convrate_try max_iters depth_shift depth v i success)
   \<and> snd (convrate_retry_loop convrate_try max_iters depth_shift depth v i success) \<le> max i max_iters"
proof (induction convrate_try max_iters depth_shift depth v i success
       rule: convrate_retry_loop.induct)
  case (1 convrate_try max_iters depth_shift depth v i success)
  show ?case
  proof (cases "\<not> success \<and> i < max_iters")
    case False
    then have "convrate_retry_loop convrate_try max_iters depth_shift depth v i success = (v, i)"
      by (subst convrate_retry_loop.simps) auto
    then show ?thesis by simp
  next
    case True
    show ?thesis
    proof (cases "convrate_try depth")
      case (Inl e)
      have "convrate_retry_loop convrate_try max_iters depth_shift depth v i success
            = convrate_retry_loop convrate_try max_iters depth_shift (depth + depth_shift) v (i + 1) success"
        using True Inl by (subst convrate_retry_loop.simps) auto
      with "1.IH"(1) [OF True Inl] True show ?thesis by (simp add: max_def)
    next
      case (Inr w)
      have "convrate_retry_loop convrate_try max_iters depth_shift depth v i success
            = convrate_retry_loop convrate_try max_iters depth_shift (depth + depth_shift) w (i + 1) True"
        using True Inr by (subst convrate_retry_loop.simps) auto
      with "1.IH"(2) [OF True Inr] True show ?thesis by (simp add: max_def)
    qed
  qed
qed

text \<open>
  Claim C9, as stated, fails for \<open>shift_step = 0\<close>: with a measure that stays infinite,
  \<open>shift\<close> stays 0, never exceeds \<open>max_shift = 10\<close>, and \<^verbatim>\<open>delta\<close> does not return.
\<close>

theorem delta_loop_zero_step_counterexample:
  "delta example_pcf_subs always_inf_delta (PCF_init (rf_poly [1]) (rf_poly [- 1, 1]) None) 1 () 0 10
     = None"
proof -
  have "(\<lambda>shift. always_inf_delta (example_pcf_subs (PCF_init (rf_poly [1]) (rf_poly [- 1, 1]) None) shift)
                    (1 + CIDS) ()) = (\<lambda>shift. Inr (Some PlusInf))"
    by (simp add: always_inf_delta_def)
  then show ?thesis
    by (simp add: delta_def delta_loop_diverges)
qed

text \<open>
  Claim C9, amended. For \<open>shift_step \<ge> 1\<close> and whatever the inner computations do, the
  shift loop of \<^verbatim>\<open>delta\<close> returns, and the shift it ends with is at most
  \<open>max_shift + shift_step\<close> (or 0); for all arguments, each of the two loops of
  \<^verbatim>\<open>compute_dynamics\<close> ends with its counter \<open>i\<close> at most \<open>max_iters\<close> (or 0).
\<close>

theorem retry_loops_bounded:
  "(1 \<le> shift_step \<longrightarrow>
      (\<exists>r s. delta_loop attempt shift_step max_shift 0 (Some PlusInf) = Some (r, s)
             \<and> 0 \<le> s \<and> s \<le> max 0 (max_shift + shift_step))
      \<and> (\<exists>r. delta pcf_subs pcf_delta pcf depth limit_arg shift_step max_shift = Some r))
   \<and> 0 \<le> snd (delta_retry_loop delta_try max_iters depth_shift depth0 PlusInf 0 False)
   \<and> snd (delta_retry_loop delta_try max_iters depth_shift depth0 PlusInf 0 False) \<le> max 0 max_iters
   \<and> 0 \<le> snd (convrate_retry_loop convrate_try max_iters depth_shift depth0 (Finite 0) 0 False)
   \<and> snd (convrate_retry_loop convrate_try max_iters depth_shift depth0 (Finite 0) 0 False)
       \<le> max 0 max_iters"
proof -
  have D: "(\<exists>r s. delta_loop attempt shift_step max_shift 0 (Some PlusInf) = Some (r, s)
             \<and> 0 \<le> s \<and> s \<le> max 0 (max_shift + shift_step))
      \<and> (\<exists>r. delta pcf_subs pcf_delta pcf depth limit_arg shift_step max_shift = Some r)"
    if "1 \<le> shift_step"
  proof -
    have pos: "0 < shift_step" using that by simp
    from delta_loop_terminates [OF pos, of "\<lambda>shift. pcf_delta (pcf_subs pcf shift) (depth + CIDS) limit_arg" max_shift 0 "Some PlusInf"]
    have "\<exists>r. delta pcf_subs pcf_delta pcf depth limit_arg shift_step max_shift = Some r"
      by (auto simp: delta_def)
    with delta_loop_terminates [OF pos, of attempt max_shift 0 "Some PlusInf"] show ?thesis
      by blast
  qed
  from D delta_retry_loop_counter [of 0 delta_try max_iters depth_shift depth0 PlusInf False]
    convrate_retry_loop_counter [of 0 convrate_try max_iters depth_shift depth0 "Finite 0" False]
  show ?thesis by blast
qed

theorem retry_loops_bounded_witness:
  "(1::int) \<le> 5
   \<and> (\<exists>r s. delta_loop (\<lambda>shift. Inr (Some PlusInf)) 5 10 0 (Some PlusInf) = Some (r, s)
             \<and> 0 \<le> s \<and> s \<le> 15)
   \<and> (\<exists>r. delta example_pcf_subs always_inf_delta (PCF_init (rf_poly [1]) (rf_poly [- 1, 1]) None)
              1 () 5 10 = Some r)
   \<and> snd (delta_retry_loop (\<lambda>depth. Inl ValueError) 5 100 2000 PlusInf 0 False) \<le> 5
   \<and> snd (convrate_retry_loop (\<lambda>depth. Inl ValueError) 5 100 2000 (Finite 0) 0 False) \<le> 5"
proof -
  have h: "(1::int) \<le> 5" by simp
  from retry_loops_bounded [of 5 "\<lambda>shift. Inr (Some PlusInf)" 10 example_pcf_subs always_inf_delta
      "PCF_init (rf_poly [1]) (rf_poly [- 1, 1]) None" 1 "()" "\<lambda>depth. Inl ValueError" 5 100 2000
      "\<lambda>depth. Inl ValueError"] h
  show ?thesis by simp
qed

subsection \<open>The limit index that \<^verbatim>\<open>errors\<close> and \<^verbatim>\<open>q_reds\<close> read\<close>

lemma q_reds_single:
  assumes "1 \<le> d"
  shows "q_reds pcf_limit as_rational [d] False
         = Inr [real_of_int (q_red (as_rational (pcf_limit (d + CIDS - 1))))]"
proof -
  have len: "nat (d - 1) < length [CIDS .. d + CIDS - 1]"
    using assms by (simp add: CIDS_def)
  have nth: "[CIDS .. d + CIDS - 1] ! nat (d - 1) = d + CIDS - 1"
    using assms by (subst nth_upto) (simp_all add: CIDS_def)
  have "map pcf_limit [CIDS .. d + CIDS - 1] ! nat (d - 1) = pcf_limit (d + CIDS - 1)"
    using len nth by (simp only: nth_map)
  then show ?thesis
    using assms by (simp add: q_reds_def depth_to_ind_def Let_def)
qed

lemma errors_single:
  assumes "1 \<le> d"
  shows "errors pcf_limit as_float [d] (Some l) False
         = Inr [\<bar>l - as_float (pcf_limit (d + CIDS))\<bar>]"
  using assms by (simp add: errors_def Let_def)

text \<open>
  Claim C7 fails on the code. For a depth \<open>d \<ge> 1\<close>, \<^verbatim>\<open>errors\<close> reads the \<^verbatim>\<open>Limit\<close> object of
  the iteration index \<open>d + CIDS\<close>, and \<^verbatim>\<open>q_reds\<close> the one of \<open>d + CIDS - 1\<close>: its list of
  limits starts at \<open>CIDS\<close> and \<^verbatim>\<open>depth_to_ind\<close> maps \<open>d\<close> to position \<open>d - 1\<close>.
\<close>

theorem q_reds_index_off_by_one:
  assumes "1 \<le> d"
  shows "q_reds pcf_limit as_rational [d] False
           = Inr [real_of_int (q_red (as_rational (pcf_limit (d + CIDS - 1))))]
       \<and> errors pcf_limit as_float [d] (Some l) False
           = Inr [\<bar>l - as_float (pcf_limit (d + CIDS))\<bar>]"
  by (intro conjI q_reds_single errors_single assms)

theorem q_reds_index_off_by_one_witness:
  "(1::int) \<le> 1
   \<and> q_reds (\<lambda>i. i) (\<lambda>i. (1, i)) [1] False = Inr [2]
   \<and> errors (\<lambda>i. i) real_of_int [1] (Some 0) False = Inr [3]"
proof -
  have h: "(1::int) \<le> 1" by simp
  from q_reds_index_off_by_one [OF h, of "\<lambda>i. i" "\<lambda>i. (1, i)" real_of_int 0]
  show ?thesis by (simp add: CIDS_def q_red_def)
qed

subsection \<open>Cancellation keeps the value of a rational function\<close>

lemma pdiv_exact_Some:
  assumes "pdiv_exact f g = Some q"
  shows "peval f x = peval q x * peval g x"
proof -
  from assms have "pnorm (pmul q g) = pnorm f"
    by (simp add: pdiv_exact_def Let_def split: if_splits)
  then have "peval (pnorm (pmul q g)) x = peval (pnorm f) x" by simp
  then show ?thesis by (simp add: peval_pnorm peval_pmul)
qed

lemma cancel_factor:
  "\<exists>g. \<forall>x. peval (fst r) x = peval (fst (cancel r)) x * peval g x
           \<and> peval (snd r) x = peval (snd (cancel r)) x * peval g x"
proof -
  obtain p q where r: "r = (p, q)" by (cases r)
  define g where "g = (if lead (pnorm q) < 0 then psmul (- 1) (pgcd p q) else pgcd p q)"
  show ?thesis
  proof (cases "\<exists>p' q'. pdiv_exact p g = Some p' \<and> pdiv_exact q g = Some q'")
    case True
    then obtain p' q' where d: "pdiv_exact p g = Some p'" "pdiv_exact q g = Some q'" by blast
    then have c: "cancel r = (p', q')"
      by (simp add: cancel_def r g_def Let_def)
    have "\<forall>x. peval (fst r) x = peval (fst (cancel r)) x * peval g x
           \<and> peval (snd r) x = peval (snd (cancel r)) x * peval g x"
      unfolding c using pdiv_exact_Some [OF d(1)] pdiv_exact_Some [OF d(2)] by (simp add: r)
    then show ?thesis by blast
  next
    case False
    then have c: "cancel r = (pnorm p, pnorm q)"
      by (auto simp: cancel_def r g_def Let_def split: option.splits)
    have "\<forall>x. peval (fst r) x = peval (fst (cancel r)) x * peval [1] x
           \<and> peval (snd r) x = peval (snd (cancel r)) x * peval [1] x"
      unfolding c by (simp add: r peval_pnorm)
    then show ?thesis by blast
  qed
qed

lemma rf_val_cancel:
  assumes "peval (snd r) k \<noteq> 0"
  shows "rf_val (cancel r) k = rf_val r k"
proof -
  from cancel_factor [of r] obtain g where
    n: "peval (fst r) k = peval (fst (cancel r)) k * peval g k" and
    d: "peval (snd r) k = peval (snd (cancel r)) k * peval g k" by blast
  from d assms have "peval g k \<noteq> 0" by auto
  then show ?thesis by (simp add: rf_val_def n d)
qed

lemma rf_val_mul: "rf_val (rf_mul r s) k = rf_val r k * rf_val s k"
  by (simp add: rf_val_def rf_mul_def peval_pnorm peval_pmul)

lemma snd_rf_mul: "peval (snd (rf_mul r s)) k = peval (snd r) k * peval (snd s) k"
  by (simp add: rf_mul_def peval_pnorm peval_pmul)

lemma rf_val_subs_prev: "rf_val (rf_subs c [- 1, 1]) k = rf_val c (k - 1)"
  by (simp add: rf_val_def rf_subs_def peval_pnorm peval_pcompose)

lemma snd_rf_subs_prev: "peval (snd (rf_subs c [- 1, 1])) k = peval (snd c) (k - 1)"
  by (simp add: rf_subs_def peval_pnorm peval_pcompose)

lemma PCF_init_fields:
  "a (PCF_init a0 b0 ib) = cancel a0"
  "b (PCF_init a0 b0 ib) = cancel b0"
  "inflated_by (PCF_init a0 b0 (Some seed))
     = rf_mul seed (inflate_to_integer_polynomials (PCF_init a0 b0 (Some seed)))"
  "inflate_to_integer_polynomials (PCF_init a0 b0 ib)
     = cancel (rf_poly (plcm (snd (cancel a0)) (snd (cancel b0))))"
  by (simp_all add: PCF_init_def Let_def as_numer_denom_def)

subsection \<open>\<^verbatim>\<open>inflate\<close> and \<^verbatim>\<open>deflate_all\<close>\<close>

text \<open>
  Claim C3, as stated, fails in its last part. The constructor multiplies the
  \<^verbatim>\<open>inflated_by\<close> it is given by the LCM of the denominators of the new \<open>a\<close> and \<open>b\<close>.
  For \<open>a = b = 1\<close> (\<^verbatim>\<open>inflated_by\<close> 1) and \<open>c = 1/n\<close> the new \<open>a\<close> and \<open>b\<close> are \<open>1/n\<close> and
  \<open>1/(n(n - 1))\<close>, and the new \<^verbatim>\<open>inflated_by\<close> is \<open>n - 1\<close>, not \<open>1/n\<close>: at \<open>n = 2\<close> it is 1,
  and \<^verbatim>\<open>p.inflated_by * c\<close> is \<open>1/2\<close>.
\<close>

theorem inflate_inflated_by_counterexample:
  "inflated_by (PCF_init (rf_poly [1]) (rf_poly [1]) None) = ([1], [1])
   \<and> cancel (inflated_by (inflate (PCF_init (rf_poly [1]) (rf_poly [1]) None) ([1], [0, 1])))
       = ([- 1, 1], [1])
   \<and> cancel (rf_mul (inflated_by (PCF_init (rf_poly [1]) (rf_poly [1]) None)) ([1], [0, 1]))
       = ([1], [0, 1])
   \<and> rf_val (inflated_by (inflate (PCF_init (rf_poly [1]) (rf_poly [1]) None) ([1], [0, 1]))) 2
       \<noteq> rf_val (inflated_by (PCF_init (rf_poly [1]) (rf_poly [1]) None)) 2 * rf_val ([1], [0, 1]) 2"
proof -
  let ?P = "PCF_init (rf_poly [1]) (rf_poly [1]) None"
  have 1: "inflated_by ?P = ([1], [1])" by code_simp
  have 2: "inflated_by (inflate ?P ([1], [0, 1])) = ([0, - 1, 1], [0, 1])" by code_simp
  have 3: "cancel ([0, - 1, 1], [0, 1]) = ([- 1, 1], [1])" by code_simp
  have 4: "cancel (rf_mul ([1], [1]) ([1], [0, 1])) = ([1], [0, 1])" by code_simp
  show ?thesis by (simp add: 1 2 3 4 rf_val_def)
qed

text \<open>
  Claim C3, amended. For every PCF \<open>p\<close> and rational function \<open>c\<close>, \<^verbatim>\<open>p.inflate(c)\<close> has
  \<open>a = p.a * c\<close> and \<open>b = p.b * c(n) * c(n - 1)\<close> in cancelled form, with these values at
  every index where the denominators involved do not vanish. When \<open>a\<close> and \<open>b\<close> of \<open>p\<close> are
  polynomials (its own denominator LCM is 1), the new \<^verbatim>\<open>inflated_by\<close> is
  \<^verbatim>\<open>p.inflated_by * c\<close> times the LCM of the denominators of the new \<open>a\<close> and \<open>b\<close>, hence
  \<^verbatim>\<open>p.inflated_by * c\<close> when the new \<open>a\<close> and \<open>b\<close> are polynomials too.
\<close>

theorem inflate_fields:
  "a (inflate p c) = cancel (rf_mul (a p) c)
   \<and> b (inflate p c) = cancel (rf_mul (rf_mul (b p) c) (rf_subs c [- 1, 1]))
   \<and> (peval (snd (a p)) k \<noteq> 0 \<and> peval (snd c) k \<noteq> 0
        \<longrightarrow> rf_val (a (inflate p c)) k = rf_val (a p) k * rf_val c k)
   \<and> (peval (snd (b p)) k \<noteq> 0 \<and> peval (snd c) k \<noteq> 0 \<and> peval (snd c) (k - 1) \<noteq> 0
        \<longrightarrow> rf_val (b (inflate p c)) k = rf_val (b p) k * rf_val c k * rf_val c (k - 1))
   \<and> (inflate_to_integer_polynomials p = ([1], [1])
        \<and> peval (snd (inflated_by p)) k \<noteq> 0 \<and> peval (snd c) k \<noteq> 0
        \<longrightarrow> rf_val (inflated_by (inflate p c)) k
              = rf_val (inflated_by p) k * rf_val c k
                * rf_val (rf_poly (plcm (snd (a (inflate p c))) (snd (b (inflate p c))))) k
            \<and> (plcm (snd (a (inflate p c))) (snd (b (inflate p c))) = [1]
                 \<longrightarrow> rf_val (inflated_by (inflate p c)) k = rf_val (inflated_by p) k * rf_val c k))"
proof -
  let ?new = "inflate p c"
  have A: "a ?new = cancel (rf_mul (a p) c)"
    and B: "b ?new = cancel (rf_mul (rf_mul (b p) c) (rf_subs c [- 1, 1]))"
    by (simp_all add: inflate_def PCF_init_fields)
  have Av: "rf_val (a ?new) k = rf_val (a p) k * rf_val c k"
    if "peval (snd (a p)) k \<noteq> 0 \<and> peval (snd c) k \<noteq> 0"
    using that by (simp add: A rf_val_cancel snd_rf_mul rf_val_mul)
  have Bv: "rf_val (b ?new) k = rf_val (b p) k * rf_val c k * rf_val c (k - 1)"
    if "peval (snd (b p)) k \<noteq> 0 \<and> peval (snd c) k \<noteq> 0 \<and> peval (snd c) (k - 1) \<noteq> 0"
    using that
    by (simp add: B rf_val_cancel snd_rf_mul rf_val_mul snd_rf_subs_prev rf_val_subs_prev)
  let ?L = "rf_poly (plcm (snd (a ?new)) (snd (b ?new)))"
  have L: "inflate_to_integer_polynomials ?new = cancel ?L"
    by (simp add: inflate_def PCF_init_fields)
  have Lden: "peval (snd ?L) k \<noteq> 0" by (simp add: rf_poly_def)
  have I: "inflated_by ?new = rf_mul (cancel (rf_mul (inflated_by p) c)) (cancel ?L)"
    unfolding inflate_def PCF_init_fields(3) by (simp add: PCF_init_fields)
  have Iv: "rf_val (inflated_by ?new) k = rf_val (inflated_by p) k * rf_val c k * rf_val ?L k"
    if "peval (snd (inflated_by p)) k \<noteq> 0 \<and> peval (snd c) k \<noteq> 0"
    using that Lden by (simp add: I rf_val_mul rf_val_cancel snd_rf_mul)
  have one: "rf_val (rf_poly [1]) k = 1" by (simp add: rf_val_def rf_poly_def pnorm_def)
  from A B Av Bv Iv one show ?thesis by auto
qed

theorem inflate_fields_witness:
  "rf_val (a (inflate (PCF_init (rf_poly [1]) (rf_poly [1]) None) ([1], [0, 1]))) 2 = 1 / 2
   \<and> rf_val (b (inflate (PCF_init (rf_poly [1]) (rf_poly [1]) None) ([1], [0, 1]))) 2 = 1 / 2
   \<and> rf_val (inflated_by (inflate (PCF_init (rf_poly [1]) (rf_poly [1]) None) ([1], [0, 1]))) 2 = 1
   \<and> rf_val (inflated_by (inflate (PCF_init (rf_poly [1]) (rf_poly [1]) None) ([0, 1], [1]))) 2 = 2"
proof -
  let ?P = "PCF_init (rf_poly [1]) (rf_poly [1]) None"
  have P: "a ?P = ([1], [1])" "b ?P = ([1], [1])" "inflated_by ?P = ([1], [1])"
    by code_simp+
  have LP: "inflate_to_integer_polynomials ?P = ([1], [1])" by code_simp
  have L1: "plcm (snd (a (inflate ?P ([1], [0, 1])))) (snd (b (inflate ?P ([1], [0, 1])))) = [0, - 1, 1]"
    by code_simp
  have L2: "plcm (snd (a (inflate ?P ([0, 1], [1])))) (snd (b (inflate ?P ([0, 1], [1])))) = [1]"
    by code_simp
  have dens: "peval (snd (a ?P)) 2 \<noteq> 0" "peval (snd (b ?P)) 2 \<noteq> 0"
    "peval (snd (inflated_by ?P)) 2 \<noteq> 0"
    unfolding P by simp_all
  have c1: "peval (snd ([1], [0, 1])) 2 \<noteq> 0" "peval (snd ([1], [0, 1])) (2 - 1) \<noteq> 0"
    and c2: "peval (snd ([0, 1], [1])) 2 \<noteq> 0"
    by simp_all
  have vals: "rf_val (a ?P) 2 = 1" "rf_val (b ?P) 2 = 1" "rf_val (inflated_by ?P) 2 = 1"
    unfolding P by (simp_all add: rf_val_def)
  have cv: "rf_val ([1], [0, 1]) 2 = 1 / 2" "rf_val ([1], [0, 1]) (2 - 1) = 1"
    "rf_val ([0, 1], [1]) 2 = 2" "rf_val (rf_poly [0, - 1, 1]) 2 = 2"
    by (simp_all add: rf_val_def rf_poly_def pnorm_def)
  note T1 = inflate_fields [of ?P "([1], [0, 1])" 2]
  note T2 = inflate_fields [of ?P "([0, 1], [1])" 2]
  have A: "rf_val (a (inflate ?P ([1], [0, 1]))) 2 = rf_val (a ?P) 2 * rf_val ([1], [0, 1]) 2"
    using T1 dens c1 by blast
  have B: "rf_val (b (inflate ?P ([1], [0, 1]))) 2
           = rf_val (b ?P) 2 * rf_val ([1], [0, 1]) 2 * rf_val ([1], [0, 1]) (2 - 1)"
    using T1 dens c1 by blast
  have I1: "rf_val (inflated_by (inflate ?P ([1], [0, 1]))) 2
           = rf_val (inflated_by ?P) 2 * rf_val ([1], [0, 1]) 2 * rf_val (rf_poly [0, - 1, 1]) 2"
    using T1 dens c1 LP unfolding L1 by blast
  have I2: "rf_val (inflated_by (inflate ?P ([0, 1], [1]))) 2
           = rf_val (inflated_by ?P) 2 * rf_val ([0, 1], [1]) 2"
    using T2 dens c2 LP L2 by blast
  show ?thesis
    unfolding A B I1 I2 vals cv by simp
qed

text \<open>
  Claim C8 fails on the code. For \<open>a = 1/(n + 1)\<close>, \<open>b = 1\<close> the numerators of \<open>a\<close> and \<open>b\<close>
  have content 1 and \<^verbatim>\<open>deflate_all\<close> leaves \<open>a\<close> and \<open>b\<close> as they are, but each call goes
  through \<^verbatim>\<open>inflate\<close> and the constructor, which multiplies \<^verbatim>\<open>inflated_by\<close> by the
  denominator LCM \<open>n + 1\<close> once more: \<open>(n + 1)\<^sup>2\<close> after one call, \<open>(n + 1)\<^sup>3\<close> after two.
\<close>

theorem deflate_all_twice_inflated_by:
  "a (deflate_all (deflate_all (PCF_init ([1], [1, 1]) (rf_poly [1]) None)))
     = a (deflate_all (PCF_init ([1], [1, 1]) (rf_poly [1]) None))
   \<and> b (deflate_all (deflate_all (PCF_init ([1], [1, 1]) (rf_poly [1]) None)))
     = b (deflate_all (PCF_init ([1], [1, 1]) (rf_poly [1]) None))
   \<and> content (fst (as_numer_denom (a (deflate_all (PCF_init ([1], [1, 1]) (rf_poly [1]) None)))))
              (fst (as_numer_denom (b (deflate_all (PCF_init ([1], [1, 1]) (rf_poly [1]) None)))))
     = [1]
   \<and> inflated_by (deflate_all (PCF_init ([1], [1, 1]) (rf_poly [1]) None)) = ([1, 2, 1], [1])
   \<and> inflated_by (deflate_all (deflate_all (PCF_init ([1], [1, 1]) (rf_poly [1]) None)))
     = ([1, 3, 3, 1], [1])
   \<and> deflate_all (deflate_all (PCF_init ([1], [1, 1]) (rf_poly [1]) None))
     \<noteq> deflate_all (PCF_init ([1], [1, 1]) (rf_poly [1]) None)"
  by code_simp

subsection \<open>The shift of \<^verbatim>\<open>shift_to_viable\<close>\<close>

text \<open>\<open>int_roots\<close> finds every integer root of a polynomial that is not zero.\<close>

lemma peval_replicate_zero: "peval (replicate m 0 @ q) x = x ^ m * peval q x"
  by (simp add: peval_append) (induction m, simp_all)

lemma int_roots_complete:
  assumes "dropWhile (\<lambda>c. c = 0) p \<noteq> []"
  shows "set (int_roots p) = {z. peval p z = 0}"
proof -
  obtain c cs where dw: "dropWhile (\<lambda>c. c = 0) p = c # cs"
    using assms by (cases "dropWhile (\<lambda>c. c = 0) p") auto
  have c0: "c \<noteq> 0" using hd_dropWhile [of "\<lambda>c. c = 0" p] dw by auto
  have "p = takeWhile (\<lambda>c. c = 0) p @ c # cs"
    using takeWhile_dropWhile_id [of "\<lambda>c. c = 0" p] dw by simp
  moreover have "takeWhile (\<lambda>c. c = 0) p = replicate (length (takeWhile (\<lambda>c. c = 0) p)) 0"
    by (metis (mono_tags, lifting) replicate_length_same set_takeWhileD)
  ultimately obtain m where p: "p = replicate m 0 @ c # cs" by metis
  have ev: "peval p z = z ^ m * (c + z * peval cs z)" for z
    by (simp add: p peval_replicate_zero)
  have roots: "int_roots p = filter (\<lambda>z. peval p z = 0) [- \<bar>c\<bar> .. \<bar>c\<bar>]"
    by (simp add: int_roots_def dw)
  have "z \<in> {- \<bar>c\<bar> .. \<bar>c\<bar>}" if "peval p z = 0" for z
  proof (cases "z = 0")
    case True
    then show ?thesis by simp
  next
    case False
    with that ev have "c + z * peval cs z = 0" by simp
    then have "c = z * (- peval cs z)" by simp
    then have "z dvd c" by (metis dvd_triv_left)
    with c0 have "\<bar>z\<bar> \<le> \<bar>c\<bar>" by (simp add: dvd_imp_le_int)
    then show ?thesis by auto
  qed
  then show ?thesis by (auto simp: roots)
qed

lemma dropWhile_zero_pnorm: "dropWhile (\<lambda>c. c = 0) p \<noteq> [] \<longleftrightarrow> pnorm p \<noteq> []"
  by (auto simp: pnorm_def dropWhile_eq_Nil_conv)

lemma int_roots_pnorm:
  "pnorm p \<noteq> [] \<Longrightarrow> set (int_roots p) = {z. peval p z = 0}"
  using int_roots_complete [of p] dropWhile_zero_pnorm [of p] by blast

lemma py_max_ge: "x \<in> set xs \<Longrightarrow> x \<le> py_max xs"
  by (simp add: py_max_def)

lemma py_max_mem: "xs \<noteq> [] \<Longrightarrow> py_max xs \<in> set xs"
  unfolding py_max_def by (rule Max_in) simp_all

lemma get_shift_bounds:
  assumes nz: "pnorm (fst (b pcf)) \<noteq> []" "pnorm (snd (b pcf)) \<noteq> []" "pnorm (snd (a pcf)) \<noteq> []"
  shows "peval (snd (a pcf)) z = 0 \<Longrightarrow> z + 1 \<le> get_shift pcf"
    and "peval (snd (b pcf)) z = 0 \<Longrightarrow> z \<le> get_shift pcf"
    and "peval (fst (b pcf)) z = 0 \<Longrightarrow> z \<le> get_shift pcf"
proof -
  have A: "set (int_roots (snd (a pcf))) = {z. peval (snd (a pcf)) z = 0}"
    and Bd: "set (int_roots (snd (b pcf))) = {z. peval (snd (b pcf)) z = 0}"
    and Bn: "set (int_roots (fst (b pcf))) = {z. peval (fst (b pcf)) z = 0}"
    using nz by (simp_all add: int_roots_pnorm)
  show "peval (snd (a pcf)) z = 0 \<Longrightarrow> z + 1 \<le> get_shift pcf"
  proof -
    assume "peval (snd (a pcf)) z = 0"
    then have m: "z \<in> set (int_roots (snd (a pcf)))" using A by simp
    then have "int_roots (snd (a pcf)) \<noteq> []" by auto
    with py_max_ge [OF m] show ?thesis
      by (simp add: get_shift_def get_zeros_def as_numer_denom_def Let_def)
  qed
  show "peval (snd (b pcf)) z = 0 \<Longrightarrow> z \<le> get_shift pcf"
  proof -
    assume "peval (snd (b pcf)) z = 0"
    then have m: "z \<in> set (int_roots (snd (b pcf)))" using Bd by simp
    then have "int_roots (snd (b pcf)) \<noteq> []" by auto
    with py_max_ge [OF m] show ?thesis
      by (simp add: get_shift_def get_zeros_def as_numer_denom_def Let_def)
  qed
  show "peval (fst (b pcf)) z = 0 \<Longrightarrow> z \<le> get_shift pcf"
  proof -
    assume "peval (fst (b pcf)) z = 0"
    then have m: "z \<in> set (int_roots (fst (b pcf)))" using Bn by simp
    then have "int_roots (fst (b pcf)) \<noteq> []" by auto
    with py_max_ge [OF m] show ?thesis
      by (simp add: get_shift_def get_zeros_def as_numer_denom_def Let_def)
  qed
qed

lemma get_shift_attained:
  assumes nz: "pnorm (fst (b pcf)) \<noteq> []" "pnorm (snd (b pcf)) \<noteq> []" "pnorm (snd (a pcf)) \<noteq> []"
    and pos: "0 < get_shift pcf"
  shows "peval (snd (a pcf)) (get_shift pcf - 1) = 0
         \<or> peval (snd (b pcf)) (get_shift pcf) = 0
         \<or> peval (fst (b pcf)) (get_shift pcf) = 0"
proof -
  let ?za = "int_roots (snd (a pcf))" and ?zd = "int_roots (snd (b pcf))"
    and ?zn = "int_roots (fst (b pcf))"
  have A: "set ?za = {z. peval (snd (a pcf)) z = 0}"
    and Bd: "set ?zd = {z. peval (snd (b pcf)) z = 0}"
    and Bn: "set ?zn = {z. peval (fst (b pcf)) z = 0}"
    using nz by (simp_all add: int_roots_pnorm)
  have s: "get_shift pcf = max (if ?za \<noteq> [] then py_max ?za + 1 else 0)
                            (max (if ?zd \<noteq> [] then py_max ?zd else 0)
                                 (if ?zn \<noteq> [] then py_max ?zn else 0))"
    by (simp add: get_shift_def get_zeros_def as_numer_denom_def Let_def)
  consider "?za \<noteq> []" "get_shift pcf = py_max ?za + 1"
    | "?zd \<noteq> []" "get_shift pcf = py_max ?zd"
    | "?zn \<noteq> []" "get_shift pcf = py_max ?zn"
    using pos unfolding s by (auto simp: max_def split: if_splits)
  then show ?thesis
  proof cases
    case 1
    from py_max_mem [OF 1(1)] A 1(2) show ?thesis by auto
  next
    case 2
    from py_max_mem [OF 2(1)] Bd 2(2) show ?thesis by auto
  next
    case 3
    from py_max_mem [OF 3(1)] Bn 3(2) show ?thesis by auto
  qed
qed

lemma cancel_root_snd: "peval (snd (cancel r)) x = 0 \<Longrightarrow> peval (snd r) x = 0"
  using cancel_factor [of r] by auto

lemma cancel_root_fst: "peval (fst (cancel r)) x = 0 \<Longrightarrow> peval (fst r) x = 0"
  using cancel_factor [of r] by auto

lemma peval_rf_subs_shift:
  "peval (fst (rf_subs r [s, 1])) k = peval (fst r) (s + k)"
  "peval (snd (rf_subs r [s, 1])) k = peval (snd r) (s + k)"
  by (simp_all add: rf_subs_def peval_pnorm peval_pcompose)

lemma subs_fields:
  "a (subs pcf q) = cancel (rf_subs (a pcf) q)"
  "b (subs pcf q) = cancel (rf_subs (b pcf) q)"
  by (simp_all add: subs_def PCF_init_def Let_def)

lemma shifted_roots:
  "peval (snd (a (subs pcf [s, 1]))) k = 0 \<Longrightarrow> peval (snd (a pcf)) (s + k) = 0"
  "peval (snd (b (subs pcf [s, 1]))) k = 0 \<Longrightarrow> peval (snd (b pcf)) (s + k) = 0"
  "peval (fst (b (subs pcf [s, 1]))) k = 0 \<Longrightarrow> peval (fst (b pcf)) (s + k) = 0"
  using cancel_root_snd [of "rf_subs (a pcf) [s, 1]" k]
    cancel_root_snd [of "rf_subs (b pcf) [s, 1]" k]
    cancel_root_fst [of "rf_subs (b pcf) [s, 1]" k]
  by (simp_all add: subs_fields peval_rf_subs_shift)

text \<open>
  Claim C4, as stated, fails: index 0 of \<open>b\<close> is left out by \<^verbatim>\<open>get_shift\<close>. For \<open>a = 1\<close>,
  \<open>b = n - 3\<close> the shift is 3 and the PCF returned has \<open>b = n\<close>, whose numerator has the root
  0, a non-negative index.
\<close>

theorem shift_to_viable_counterexample:
  "shift_to_viable (PCF_init (rf_poly [1]) (rf_poly [- 3, 1]) None)
     = (PCF_init (rf_poly [1]) (rf_poly [0, 1]) None, 3)
   \<and> fst (as_numer_denom (b (fst (shift_to_viable (PCF_init (rf_poly [1]) (rf_poly [- 3, 1]) None)))))
     = [0, 1]
   \<and> (0::int) \<ge> 0
   \<and> peval (fst (as_numer_denom
               (b (fst (shift_to_viable (PCF_init (rf_poly [1]) (rf_poly [- 3, 1]) None)))))) 0
     = 0"
  by code_simp

text \<open>
  Claim C4, amended. For every PCF whose \<open>b\<close> is not identically zero (and whose fractions
  \<open>a\<close> and \<open>b\<close> have denominators other than the zero polynomial), the PCF that
  \<^verbatim>\<open>shift_to_viable\<close> returns has no integer root of the denominator of \<open>a\<close> at an index
  \<open>k \<ge> 0\<close> and no integer root of the denominator or of the numerator of \<open>b\<close> at an index
  \<open>k \<ge> 1\<close>; the PCF given is viable from the returned shift onward, from no smaller
  nonnegative shift, and the returned shift is not positive when the PCF given is viable from
  index 0.
\<close>

theorem shift_to_viable_from_index:
  assumes "pnorm (fst (b pcf)) \<noteq> []" and "pnorm (snd (b pcf)) \<noteq> []"
    and "pnorm (snd (a pcf)) \<noteq> []"
  shows "(\<forall>k\<ge>0. peval (snd (a (fst (shift_to_viable pcf)))) k \<noteq> 0)
       \<and> (\<forall>k\<ge>1. peval (snd (b (fst (shift_to_viable pcf)))) k \<noteq> 0
                 \<and> peval (fst (b (fst (shift_to_viable pcf)))) k \<noteq> 0)
       \<and> viable_from pcf (snd (shift_to_viable pcf))
       \<and> (\<forall>s'. 0 \<le> s' \<and> s' < snd (shift_to_viable pcf) \<longrightarrow> \<not> viable_from pcf s')
       \<and> (viable_from pcf 0 \<longrightarrow> snd (shift_to_viable pcf) \<le> 0)"
proof -
  let ?s = "get_shift pcf"
  have st: "shift_to_viable pcf = (subs pcf [?s, 1], ?s)"
    by (simp add: shift_to_viable_def Let_def)
  note B = get_shift_bounds [OF assms]
  have V: "viable_from pcf ?s"
    unfolding viable_from_def
  proof (intro conjI allI impI)
    fix k assume "?s \<le> k"
    then show "peval (snd (a pcf)) k \<noteq> 0" using B(1) [of k] by auto
  next
    fix k assume "?s + 1 \<le> k"
    then show "peval (snd (b pcf)) k \<noteq> 0" using B(2) [of k] by auto
  next
    fix k assume "?s + 1 \<le> k"
    then show "peval (fst (b pcf)) k \<noteq> 0" using B(3) [of k] by auto
  qed
  have new_a: "peval (snd (a (subs pcf [?s, 1]))) k \<noteq> 0" if "0 \<le> k" for k
  proof
    assume "peval (snd (a (subs pcf [?s, 1]))) k = 0"
    from B(1) [OF shifted_roots(1) [OF this]] that show False by simp
  qed
  have new_bd: "peval (snd (b (subs pcf [?s, 1]))) k \<noteq> 0" if "1 \<le> k" for k
  proof
    assume "peval (snd (b (subs pcf [?s, 1]))) k = 0"
    from B(2) [OF shifted_roots(2) [OF this]] that show False by simp
  qed
  have new_bn: "peval (fst (b (subs pcf [?s, 1]))) k \<noteq> 0" if "1 \<le> k" for k
  proof
    assume "peval (fst (b (subs pcf [?s, 1]))) k = 0"
    from B(3) [OF shifted_roots(3) [OF this]] that show False by simp
  qed
  have least: "\<not> viable_from pcf s'" if "0 \<le> s' \<and> s' < ?s" for s'
  proof
    assume v: "viable_from pcf s'"
    from that have "0 < ?s" by simp
    from get_shift_attained [OF assms this] consider
      "peval (snd (a pcf)) (?s - 1) = 0" | "peval (snd (b pcf)) ?s = 0"
      | "peval (fst (b pcf)) ?s = 0" by blast
    then show False
    proof cases
      case 1
      moreover have "s' \<le> ?s - 1" using that by simp
      ultimately show False using v unfolding viable_from_def by blast
    next
      case 2
      moreover have "s' + 1 \<le> ?s" using that by simp
      ultimately show False using v unfolding viable_from_def by blast
    next
      case 3
      moreover have "s' + 1 \<le> ?s" using that by simp
      ultimately show False using v unfolding viable_from_def by blast
    qed
  qed
  have zero: "?s \<le> 0" if "viable_from pcf 0"
  proof (rule ccontr)
    assume "\<not> ?s \<le> 0"
    then have "0 \<le> (0::int) \<and> 0 < ?s" by simp
    from least [OF this] that show False by simp
  qed
  from V new_a new_bd new_bn least zero show ?thesis
    unfolding st by simp
qed

text \<open>The amended claim at \<open>a = 1\<close>, \<open>b = n - 3\<close>: the shift is 3, and 2 does not do.\<close>

theorem shift_to_viable_from_index_witness:
  "snd (shift_to_viable (PCF_init (rf_poly [1]) (rf_poly [- 3, 1]) None)) = 3
   \<and> viable_from (PCF_init (rf_poly [1]) (rf_poly [- 3, 1]) None) 3
   \<and> \<not> viable_from (PCF_init (rf_poly [1]) (rf_poly [- 3, 1]) None) 2
   \<and> peval (fst (b (fst (shift_to_viable (PCF_init (rf_poly [1]) (rf_poly [- 3, 1]) None))))) 1 \<noteq> 0
   \<and> peval (snd (a (fst (shift_to_viable (PCF_init (rf_poly [1]) (rf_poly [- 3, 1]) None))))) 0 \<noteq> 0"
proof -
  let ?P = "PCF_init (rf_poly [1]) (rf_poly [- 3, 1]) None"
  have nz: "pnorm (fst (b ?P)) \<noteq> []" "pnorm (snd (b ?P)) \<noteq> []" "pnorm (snd (a ?P)) \<noteq> []"
    by code_simp+
  have s: "snd (shift_to_viable ?P) = 3" by code_simp
  from shift_to_viable_from_index [OF nz] show ?thesis
    unfolding s by simp
qed

subsection \<open>\<^verbatim>\<open>get_folded_pcf_limit\<close>\<close>

text \<open>
  Claim C6 fails on the code. For every \<^verbatim>\<open>PCF\<close> of \<^verbatim>\<open>unifier/pcf.py\<close>, fold factor and limit
  value, and whatever the statements after it do, \<^verbatim>\<open>get_folded_pcf_limit\<close> raises
  \<^verbatim>\<open>AttributeError\<close> at \<^verbatim>\<open>pcf.M()\<close>: it neither raises
  \<^verbatim>\<open>SingularCoboundaryMatrixError\<close> nor returns a value.
\<close>

theorem get_folded_pcf_limit_attribute_error:
  "get_folded_pcf_limit rest pcf factor limit_arg = Inl AttributeError"
  by (simp add: get_folded_pcf_limit_def PCF_M_def)

end
